theory Spec2Isabelle
  imports Main "HOL-Library.Word"
begin

section \<open>DataSetInteraction.cpp: the training dataset of the interaction detector\<close>

text \<open>
  The file \<^verbatim>\<open>src/shared/ebm_native/DataSetInteraction.cpp\<close> holds two static
  builders, \<^verbatim>\<open>ConstructResidualErrors\<close> and \<^verbatim>\<open>ConstructInputData\<close>, and the
  two member functions \<^verbatim>\<open>DataSetByFeature::Initialize\<close> and
  \<^verbatim>\<open>DataSetByFeature::Destruct\<close>. All four work on the C heap through
  \<^verbatim>\<open>EbmMalloc\<close> and \<^verbatim>\<open>free\<close>, so the embedding threads an explicit heap
  through every function: a store from addresses to blocks, an allocator that
  may refuse any request, and a trace of what the code did (log lines,
  allocations, frees, kernel dispatches).
\<close>

subsection \<open>Machine types\<close>

text \<open>
  The platform is taken to be a 64-bit one: \<^verbatim>\<open>size_t\<close> is an unsigned 64-bit
  integer, whose arithmetic wraps, and \<^verbatim>\<open>IntEbmType\<close> is \<^verbatim>\<open>int64_t\<close>. A
  pointer is an address or \<^verbatim>\<open>nullptr\<close>; a pointer into an array is the address
  of the array and an index.
\<close>

type_synonym size_t = "64 word"
type_synonym IntEbmType = "64 word" \<comment> \<open>a signed 64-bit integer, read with \<open>sint\<close>\<close>
type_synonym addr = nat
type_synonym ptr = "addr option" \<comment> \<open>\<open>None\<close> is \<^verbatim>\<open>nullptr\<close>\<close>

text \<open>
  \<^verbatim>\<open>StorageDataType\<close> is declared in a header that is not part of the sources.
  Its width is therefore a type parameter \<open>'w\<close>: a storage cell is a
  \<open>'w word\<close> (the heap is generic in the type \<open>'c\<close> of its cells), and
  \<^verbatim>\<open>static_cast<StorageDataType>(data)\<close> is \<open>ucast\<close>, which keeps the low
  \<open>LENGTH('w)\<close> bits.
\<close>

subsection \<open>The heap\<close>

text \<open>
  A block is what one \<^verbatim>\<open>EbmMalloc\<close> call returned. The allocator does not
  initialise memory, so a slot or a cell is \<open>None\<close> until the code writes it.
  The contents of a residual array are floating-point numbers written by the
  residual kernel; only its element count is kept.
\<close>

datatype 'c block =
    FloatArray nat
  | PtrArray "ptr option list"
  | StorageArray "'c option list"

text \<open>
  The two trace levels that the file logs at, and the three instances of the
  residual kernel that it calls: \<^verbatim>\<open>InitializeResiduals<2>\<close>,
  \<^verbatim>\<open>InitializeResiduals<k_DynamicClassification>\<close> and
  \<^verbatim>\<open>InitializeResiduals<k_Regression>\<close>.
\<close>

datatype trace_level = TraceLevelInfo | TraceLevelWarning

datatype kernel = Kernel_2 | Kernel_DynamicClassification | Kernel_Regression

text \<open>
  Modelled from the spec: the learning-task descriptor. The source passes it
  as a \<^verbatim>\<open>ptrdiff_t\<close> named \<^verbatim>\<open>runtimeLearningTypeOrCountTargetClasses\<close>; the
  encoding (the constants \<^verbatim>\<open>k_Regression\<close> and \<^verbatim>\<open>k_DynamicClassification\<close>
  and the predicates over them) lives in \<^verbatim>\<open>EbmInternal.h\<close>, which is not
  part of the sources. The spec describes it as a tagged value distinguishing
  regression, binary classification and multiclass classification with \<open>K\<close>
  classes, \<open>K \<ge> 3\<close>. The source passes \<^verbatim>\<open>ptrdiff_t { 2 }\<close> to the binary
  kernel and \<^verbatim>\<open>k_Regression\<close> to the regression kernel: these are
  \<open>BinaryClassification\<close> and \<open>Regression\<close>.
\<close>

datatype learning_type =
    Regression
  | BinaryClassification
  | MulticlassClassification size_t

text \<open>
  What a run leaves in the trace: a line logged with \<^verbatim>\<open>LOG_0\<close>, an allocation
  (the address returned and the number of elements asked for), a refused
  request, a free of a live block, and a call of the residual kernel with its
  template argument and its six arguments.
\<close>

datatype event =
    EvLog trace_level string
  | EvAlloc addr nat
  | EvAllocFail nat
  | EvFree addr
  | EvDispatch kernel size_t ptr ptr ptr learning_type ptr

record 'c heap =
  blocks :: "addr \<Rightarrow> 'c block option"
  brk :: addr
  calls :: nat
  avail :: "nat \<Rightarrow> bool"
  trace :: "event list"
  ub :: bool

text \<open>
  \<open>blocks\<close> maps the live addresses to their blocks and \<open>brk\<close> is the next
  fresh address. \<open>avail\<close> decides, for the \<open>n\<close>-th allocation request of the
  run (counted by \<open>calls\<close>), whether it succeeds: every behaviour of an
  allocator that may fail is one such function. \<open>ub\<close> is set, and stays set,
  when the code does something C leaves undefined: a read or a write outside a
  block or through a dangling pointer, a read of an uninitialised slot, a free
  of something that is not live.
\<close>

definition LOG_0 :: "trace_level \<Rightarrow> string \<Rightarrow> 'c heap \<Rightarrow> 'c heap" where
  "LOG_0 lvl msg s = s\<lparr>trace := trace s @ [EvLog lvl msg]\<rparr>"

text \<open>
  Modelled from the spec: \<^verbatim>\<open>EbmMalloc<T, false>(n)\<close> is defined in a header
  that is not part of the sources. The spec takes it to behave like a standard
  heap allocator that may fail and then returns a null indicator. The first
  argument builds the uninitialised block of \<open>n\<close> elements of type \<^verbatim>\<open>T\<close>.
\<close>

definition EbmMalloc :: "(nat \<Rightarrow> 'c block) \<Rightarrow> size_t \<Rightarrow> 'c heap \<Rightarrow> ptr \<times> 'c heap" where
  "EbmMalloc mk n s =
     (if avail s (calls s)
      then (Some (brk s),
            s\<lparr>blocks := (blocks s)(brk s \<mapsto> mk (unat n)),
              brk := Suc (brk s),
              calls := Suc (calls s),
              trace := trace s @ [EvAlloc (brk s) (unat n)]\<rparr>)
      else (None,
            s\<lparr>calls := Suc (calls s),
              trace := trace s @ [EvAllocFail (unat n)]\<rparr>))"

definition new_FloatEbmType :: "nat \<Rightarrow> 'c block" where
  "new_FloatEbmType n = FloatArray n"

definition new_StorageDataType_ptr :: "nat \<Rightarrow> 'c block" where
  "new_StorageDataType_ptr n = PtrArray (replicate n None)"

definition new_StorageDataType :: "nat \<Rightarrow> 'c block" where
  "new_StorageDataType n = StorageArray (replicate n None)"

text \<open>\<^verbatim>\<open>free(p)\<close>: nothing for \<^verbatim>\<open>nullptr\<close>, undefined for a block that is not live.\<close>

definition free :: "ptr \<Rightarrow> 'c heap \<Rightarrow> 'c heap" where
  "free p s =
     (case p of
        None \<Rightarrow> s
      | Some a \<Rightarrow>
          (if blocks s a = None then s\<lparr>ub := True\<rparr>
           else s\<lparr>blocks := (blocks s)(a := None), trace := trace s @ [EvFree a]\<rparr>))"

text \<open>\<^verbatim>\<open>*(aa + i) = p\<close> on an array of pointers.\<close>

definition store_ptr :: "addr \<Rightarrow> size_t \<Rightarrow> ptr \<Rightarrow> 'c heap \<Rightarrow> 'c heap" where
  "store_ptr aa i p s =
     (case blocks s aa of
        Some (PtrArray sl) \<Rightarrow>
          (if unat i < length sl
           then s\<lparr>blocks := (blocks s)(aa \<mapsto> PtrArray (sl[unat i := Some p]))\<rparr>
           else s\<lparr>ub := True\<rparr>)
      | _ \<Rightarrow> s\<lparr>ub := True\<rparr>)"

text \<open>\<^verbatim>\<open>*(aa + i)\<close> on an array of pointers.\<close>

definition load_ptr :: "addr \<Rightarrow> size_t \<Rightarrow> 'c heap \<Rightarrow> ptr \<times> 'c heap" where
  "load_ptr aa i s =
     (case blocks s aa of
        Some (PtrArray sl) \<Rightarrow>
          (if unat i < length sl
           then (case sl ! unat i of
                   Some p \<Rightarrow> (p, s)
                 | None \<Rightarrow> (None, s\<lparr>ub := True\<rparr>))
           else (None, s\<lparr>ub := True\<rparr>))
      | _ \<Rightarrow> (None, s\<lparr>ub := True\<rparr>))"

text \<open>\<^verbatim>\<open>*(a + j) = v\<close> on an array of storage cells.\<close>

definition store_cell :: "addr \<Rightarrow> size_t \<Rightarrow> 'c \<Rightarrow> 'c heap \<Rightarrow> 'c heap" where
  "store_cell a j v s =
     (case blocks s a of
        Some (StorageArray cs) \<Rightarrow>
          (if unat j < length cs
           then s\<lparr>blocks := (blocks s)(a \<mapsto> StorageArray (cs[unat j := Some v]))\<rparr>
           else s\<lparr>ub := True\<rparr>)
      | _ \<Rightarrow> s\<lparr>ub := True\<rparr>)"

text \<open>
  Reads of the caller's buffers. \<^verbatim>\<open>aBinnedData\<close> and \<^verbatim>\<open>aFeatures\<close> are arrays
  the caller owns; a read past their end is undefined and yields \<open>0\<close> here,
  with \<open>ub\<close> set.
\<close>

definition read_binned :: "IntEbmType list \<Rightarrow> nat \<Rightarrow> 'c heap \<Rightarrow> IntEbmType \<times> 'c heap" where
  "read_binned aBinnedData k s =
     (if k < length aBinnedData then (aBinnedData ! k, s) else (0, s\<lparr>ub := True\<rparr>))"

text \<open>
  Modelled from the spec: \<^verbatim>\<open>Feature.h\<close> is not part of the sources. The spec
  says that a feature exposes \<open>dataIndex\<close>, the offset multiplier into the raw
  binned buffer, and \<open>binCount\<close>, the exclusive upper bound of its legal codes;
  the source reads them through \<^verbatim>\<open>GetIndexFeatureData()\<close> and
  \<^verbatim>\<open>GetCountBins()\<close>.
\<close>

record Feature =
  GetIndexFeatureData :: size_t
  GetCountBins :: size_t

definition read_feature :: "Feature list \<Rightarrow> size_t \<Rightarrow> 'c heap \<Rightarrow> Feature \<times> 'c heap" where
  "read_feature aFeatures i s =
     (if unat i < length aFeatures then (aFeatures ! unat i, s)
      else (\<lparr>GetIndexFeatureData = 0, GetCountBins = 0\<rparr>, s\<lparr>ub := True\<rparr>))"

subsection \<open>Helpers of \<^verbatim>\<open>EbmInternal.h\<close>\<close>

text \<open>
  Modelled from the spec: \<^verbatim>\<open>GetVectorLength\<close>, \<^verbatim>\<open>IsClassification\<close>,
  \<^verbatim>\<open>IsBinaryClassification\<close>, \<^verbatim>\<open>IsRegression\<close> and \<^verbatim>\<open>IsMultiplyError\<close> are
  defined in \<^verbatim>\<open>EbmInternal.h\<close>, which is not part of the sources. The spec
  gives the vector length as 1 for regression and binary classification and
  \<open>K\<close> for multiclass classification, and \<^verbatim>\<open>IsMultiplyError\<close> as the predicate
  that tells whether a product overflows the size type.
\<close>

fun GetVectorLength :: "learning_type \<Rightarrow> size_t" where
  "GetVectorLength Regression = 1"
| "GetVectorLength BinaryClassification = 1"
| "GetVectorLength (MulticlassClassification K) = K"

fun IsClassification :: "learning_type \<Rightarrow> bool" where
  "IsClassification Regression = False"
| "IsClassification BinaryClassification = True"
| "IsClassification (MulticlassClassification K) = True"

fun IsBinaryClassification :: "learning_type \<Rightarrow> bool" where
  "IsBinaryClassification BinaryClassification = True"
| "IsBinaryClassification _ = False"

fun IsRegression :: "learning_type \<Rightarrow> bool" where
  "IsRegression Regression = True"
| "IsRegression _ = False"

definition IsMultiplyError :: "size_t \<Rightarrow> size_t \<Rightarrow> bool" where
  "IsMultiplyError a b \<longleftrightarrow> 2 ^ 64 \<le> uint a * uint b"

text \<open>
  Modelled from the spec: \<^verbatim>\<open>InitializeResiduals<..>::Func\<close> is defined in
  \<^verbatim>\<open>InitializeResiduals.h\<close>, which is not part of the sources. The spec
  treats the residual kernel as an external collaborator that fills the
  residual array; its floating-point results are outside this development.
  The model records the dispatch with its template argument and its six
  arguments, and leaves the heap as it is.
\<close>

definition InitializeResiduals_Func ::
  "kernel \<Rightarrow> size_t \<Rightarrow> ptr \<Rightarrow> ptr \<Rightarrow> ptr \<Rightarrow> learning_type \<Rightarrow> ptr \<Rightarrow> 'c heap \<Rightarrow> 'c heap" where
  "InitializeResiduals_Func k cInstances aTargetData aPredictorScores aResidualErrors lt aTempFloatVector s =
     s\<lparr>trace := trace s @
        [EvDispatch k cInstances aTargetData aPredictorScores aResidualErrors lt aTempFloatVector]\<rparr>"

subsection \<open>\<^verbatim>\<open>ConstructResidualErrors\<close>\<close>

definition ConstructResidualErrors ::
  "size_t \<Rightarrow> ptr \<Rightarrow> ptr \<Rightarrow> learning_type \<Rightarrow> 'c heap \<Rightarrow> ptr \<times> 'c heap" where
  "ConstructResidualErrors cInstances aTargetData aPredictorScores runtimeLearningTypeOrCountTargetClasses s =
     (let s0 = LOG_0 TraceLevelInfo ''Entered DataSetByFeature::ConstructResidualErrors'' s;
          cVectorLength = GetVectorLength runtimeLearningTypeOrCountTargetClasses
      in
      if IsMultiplyError cInstances cVectorLength
      then (None,
            LOG_0 TraceLevelWarning
              ''WARNING DataSetByFeature::ConstructResidualErrors IsMultiplyError(cInstances, cVectorLength)'' s0)
      else
        let cElements = cInstances * cVectorLength;
            (aResidualErrors, s1) = EbmMalloc new_FloatEbmType cElements s0
        in
        if IsClassification runtimeLearningTypeOrCountTargetClasses
        then
          if IsBinaryClassification runtimeLearningTypeOrCountTargetClasses
          then
            let s2 = InitializeResiduals_Func Kernel_2 cInstances aTargetData aPredictorScores
                       aResidualErrors BinaryClassification None s1
            in (aResidualErrors,
                LOG_0 TraceLevelInfo ''Exited DataSetByFeature::ConstructResidualErrors'' s2)
          else
            let (aTempFloatVector, s2) = EbmMalloc new_FloatEbmType cVectorLength s1
            in
            if aTempFloatVector = None
            then (None,
                  free aResidualErrors
                    (LOG_0 TraceLevelWarning
                       ''WARNING DataSetByFeature::ConstructResidualErrors nullptr == aTempFloatVector'' s2))
            else
              let s3 = InitializeResiduals_Func Kernel_DynamicClassification cInstances aTargetData
                         aPredictorScores aResidualErrors runtimeLearningTypeOrCountTargetClasses
                         aTempFloatVector s2;
                  s4 = free aTempFloatVector s3
              in (aResidualErrors,
                  LOG_0 TraceLevelInfo ''Exited DataSetByFeature::ConstructResidualErrors'' s4)
        else
          let s2 = InitializeResiduals_Func Kernel_Regression cInstances aTargetData aPredictorScores
                     aResidualErrors Regression None s1
          in (aResidualErrors,
              LOG_0 TraceLevelInfo ''Exited DataSetByFeature::ConstructResidualErrors'' s2))"

subsection \<open>\<^verbatim>\<open>ConstructInputData\<close>\<close>

text \<open>
  The inner \<^verbatim>\<open>do ... while(pInputDataFromEnd != pInputDataFrom)\<close>: \<open>off\<close> is the
  index of the feature's run in \<^verbatim>\<open>aBinnedData\<close>, \<open>j\<close> counts the cells copied
  so far. Both pointers advance together, so one counter stands for both. The
  loop tests for inequality after the body, as the source does.
\<close>

function copy_cells ::
  "IntEbmType list \<Rightarrow> nat \<Rightarrow> addr \<Rightarrow> size_t \<Rightarrow> size_t \<Rightarrow> 'w::len word heap \<Rightarrow> 'w word heap" where
  "copy_cells aBinnedData off pInputDataTo cInstances j s =
     (let (data, s1) = read_binned aBinnedData (off + unat j) s;
          s2 = store_cell pInputDataTo j (ucast data) s1;
          j' = j + 1
      in if cInstances \<noteq> j' then copy_cells aBinnedData off pInputDataTo cInstances j' s2 else s2)"
  by pat_completeness auto
termination
proof (relation "measure (\<lambda>(aBinnedData, off, pInputDataTo, cInstances, j, s). unat (cInstances - j - 1))")
  show "wf (measure (\<lambda>(aBinnedData, off, pInputDataTo, cInstances, j, s). unat (cInstances - j - 1)))"
    by simp
next
  fix aBinnedData :: "IntEbmType list" and off :: nat and pInputDataTo :: addr
    and cInstances j :: size_t and s :: "'w word heap" and x :: "IntEbmType \<times> 'w word heap"
    and data :: IntEbmType and s1 s2 :: "'w word heap" and j' :: size_t
  assume j': "j' = j + 1" and ne: "cInstances \<noteq> j'"
  define y where "y = cInstances - j - 1"
  have "y \<noteq> 0"
    using j' ne by (auto simp: y_def algebra_simps)
  then have "unat (y - 1) < unat y"
    by (simp add: unat_minus_one unat_gt_0)
  moreover have "cInstances - j' - 1 = y - 1"
    using j' by (simp add: y_def)
  ultimately have "unat (cInstances - j' - 1) < unat (cInstances - j - 1)"
    by (simp only: y_def)
  then show "((aBinnedData, off, pInputDataTo, cInstances, j', s2),
              (aBinnedData, off, pInputDataTo, cInstances, j, s))
        \<in> measure (\<lambda>(aBinnedData, off, pInputDataTo, cInstances, j, s). unat (cInstances - j - 1))"
    by simp
qed

text \<open>
  The outer \<^verbatim>\<open>do ... while(pFeatureEnd != pFeature)\<close>. \<^verbatim>\<open>paInputDataTo\<close> and
  \<^verbatim>\<open>pFeature\<close> advance together, once per feature, so the index \<open>i\<close> stands
  for both: at the head of the body \<^verbatim>\<open>paInputDataTo = aaInputDataTo + i\<close> and
  \<^verbatim>\<open>pFeature = aFeatures + i\<close>. The result says how the loop was left: \<open>True\<close>
  for the normal exit, \<open>False\<close> for \<^verbatim>\<open>goto free_all\<close>, together with the value
  of \<^verbatim>\<open>paInputDataTo - aaInputDataTo\<close> at that moment.
\<close>

function fill_features ::
  "Feature list \<Rightarrow> size_t \<Rightarrow> size_t \<Rightarrow> IntEbmType list \<Rightarrow> addr \<Rightarrow> size_t \<Rightarrow> 'w::len word heap
     \<Rightarrow> bool \<times> size_t \<times> 'w word heap" where
  "fill_features aFeatures cFeatures cInstances aBinnedData aaInputDataTo i s =
     (case EbmMalloc new_StorageDataType cInstances s of
        (None, s1) \<Rightarrow>
          (False, i,
           LOG_0 TraceLevelWarning ''WARNING DataSetByFeature::ConstructInputData nullptr == pInputDataTo'' s1)
      | (Some pInputDataTo, s1) \<Rightarrow>
          (let s2 = store_ptr aaInputDataTo i (Some pInputDataTo) s1;
               (pFeature, s3) = read_feature aFeatures i s2;
               s4 = copy_cells aBinnedData (unat (GetIndexFeatureData pFeature * cInstances))
                      pInputDataTo cInstances 0 s3;
               i' = i + 1
           in if cFeatures \<noteq> i'
              then fill_features aFeatures cFeatures cInstances aBinnedData aaInputDataTo i' s4
              else (True, i', s4)))"
  by pat_completeness auto
termination
proof (relation "measure (\<lambda>(aFeatures, cFeatures, cInstances, aBinnedData, aaInputDataTo, i, s).
                            unat (cFeatures - i - 1))")
  show "wf (measure (\<lambda>(aFeatures, cFeatures, cInstances, aBinnedData, aaInputDataTo, i, s).
                        unat (cFeatures - i - 1)))"
    by simp
next
  fix aFeatures :: "Feature list" and cFeatures cInstances :: size_t
    and aBinnedData :: "IntEbmType list" and aaInputDataTo :: addr and i i' :: size_t
    and s s4 :: "'w word heap"
  assume i': "i' = i + 1" and ne: "cFeatures \<noteq> i'"
  define y where "y = cFeatures - i - 1"
  have "y \<noteq> 0"
    using i' ne by (auto simp: y_def algebra_simps)
  then have "unat (y - 1) < unat y"
    by (simp add: unat_minus_one unat_gt_0)
  moreover have "cFeatures - i' - 1 = y - 1"
    using i' by (simp add: y_def)
  ultimately have "unat (cFeatures - i' - 1) < unat (cFeatures - i - 1)"
    by (simp only: y_def)
  then show "((aFeatures, cFeatures, cInstances, aBinnedData, aaInputDataTo, i', s4),
              (aFeatures, cFeatures, cInstances, aBinnedData, aaInputDataTo, i, s))
        \<in> measure (\<lambda>(aFeatures, cFeatures, cInstances, aBinnedData, aaInputDataTo, i, s).
                       unat (cFeatures - i - 1))"
    by simp
qed

text \<open>
  The loop under the label \<^verbatim>\<open>free_all\<close>:
  \<^verbatim>\<open>while(aaInputDataTo != paInputDataTo) { --paInputDataTo; free(*paInputDataTo); }\<close>,
  with \<open>i\<close> for \<^verbatim>\<open>paInputDataTo - aaInputDataTo\<close>.
\<close>

function free_all :: "addr \<Rightarrow> size_t \<Rightarrow> 'c heap \<Rightarrow> 'c heap" where
  "free_all aaInputDataTo i s =
     (if i \<noteq> 0
      then (let i' = i - 1;
                (p, s1) = load_ptr aaInputDataTo i' s
            in free_all aaInputDataTo i' (free p s1))
      else s)"
  by pat_completeness auto
termination
  by (relation "measure (\<lambda>(aaInputDataTo, i, s). unat i)")
     (simp_all add: unat_minus_one unat_gt_0)

definition ConstructInputData ::
  "size_t \<Rightarrow> Feature list \<Rightarrow> size_t \<Rightarrow> IntEbmType list \<Rightarrow> 'w::len word heap \<Rightarrow> ptr \<times> 'w word heap" where
  "ConstructInputData cFeatures aFeatures cInstances aBinnedData s =
     (let s0 = LOG_0 TraceLevelInfo ''Entered DataSetByFeature::ConstructInputData'' s
      in
      case EbmMalloc new_StorageDataType_ptr cFeatures s0 of
        (None, s1) \<Rightarrow>
          (None,
           LOG_0 TraceLevelWarning ''WARNING DataSetByFeature::ConstructInputData nullptr == aaInputDataTo'' s1)
      | (Some aaInputDataTo, s1) \<Rightarrow>
          (case fill_features aFeatures cFeatures cInstances aBinnedData aaInputDataTo 0 s1 of
             (True, i, s2) \<Rightarrow>
               (Some aaInputDataTo,
                LOG_0 TraceLevelInfo ''Exited DataSetByFeature::ConstructInputData'' s2)
           | (False, i, s2) \<Rightarrow>
               (None, free (Some aaInputDataTo) (free_all aaInputDataTo i s2))))"

subsection \<open>\<^verbatim>\<open>DataSetByFeature\<close>\<close>

record DataSetByFeature =
  m_aResidualErrors :: ptr
  m_aaInputData :: ptr
  m_cInstances :: size_t
  m_cFeatures :: size_t

text \<open>
  The loop of \<^verbatim>\<open>Destruct\<close>:
  \<^verbatim>\<open>do { free(*paInputData); ++paInputData; } while(paInputDataEnd != paInputData);\<close>,
  with \<open>i\<close> for \<^verbatim>\<open>paInputData - m_aaInputData\<close>.
\<close>

function free_columns :: "addr \<Rightarrow> size_t \<Rightarrow> size_t \<Rightarrow> 'c heap \<Rightarrow> 'c heap" where
  "free_columns aaInputData cFeatures i s =
     (let (p, s1) = load_ptr aaInputData i s;
          s2 = free p s1;
          i' = i + 1
      in if cFeatures \<noteq> i' then free_columns aaInputData cFeatures i' s2 else s2)"
  by pat_completeness auto
termination
proof (relation "measure (\<lambda>(aaInputData, cFeatures, i, s). unat (cFeatures - i - 1))")
  show "wf (measure (\<lambda>(aaInputData, cFeatures, i, s). unat (cFeatures - i - 1)))"
    by simp
next
  fix aaInputData :: addr and cFeatures i i' :: size_t and s s2 :: "'c heap"
  assume i': "i' = i + 1" and ne: "cFeatures \<noteq> i'"
  define y where "y = cFeatures - i - 1"
  have "y \<noteq> 0"
    using i' ne by (auto simp: y_def algebra_simps)
  then have "unat (y - 1) < unat y"
    by (simp add: unat_minus_one unat_gt_0)
  moreover have "cFeatures - i' - 1 = y - 1"
    using i' by (simp add: y_def)
  ultimately have "unat (cFeatures - i' - 1) < unat (cFeatures - i - 1)"
    by (simp only: y_def)
  then show "((aaInputData, cFeatures, i', s2), (aaInputData, cFeatures, i, s))
        \<in> measure (\<lambda>(aaInputData, cFeatures, i, s). unat (cFeatures - i - 1))"
    by simp
qed

definition Destruct :: "DataSetByFeature \<Rightarrow> 'c heap \<Rightarrow> 'c heap" where
  "Destruct this s =
     (let s0 = LOG_0 TraceLevelInfo ''Entered DataSetByFeature::Destruct'' s;
          s1 = free (m_aResidualErrors this) s0;
          s2 = (case m_aaInputData this of
                  None \<Rightarrow> s1
                | Some aaInputData \<Rightarrow>
                    free (Some aaInputData) (free_columns aaInputData (m_cFeatures this) 0 s1))
      in LOG_0 TraceLevelInfo ''Exited DataSetByFeature::Destruct'' s2)"

text \<open>
  \<^verbatim>\<open>Initialize\<close> returns the C++ \<^verbatim>\<open>bool\<close>, the object and the heap. The two
  \<^verbatim>\<open>goto exit_error\<close> leave the fields as they were.
\<close>

definition Initialize ::
  "DataSetByFeature \<Rightarrow> size_t \<Rightarrow> Feature list \<Rightarrow> size_t \<Rightarrow> IntEbmType list \<Rightarrow> ptr \<Rightarrow> ptr
     \<Rightarrow> learning_type \<Rightarrow> 'w::len word heap \<Rightarrow> bool \<times> DataSetByFeature \<times> 'w word heap" where
  "Initialize this cFeatures aFeatures cInstances aBinnedData aTargetData aPredictorScores
       runtimeLearningTypeOrCountTargetClasses s =
     (let s0 = LOG_0 TraceLevelInfo ''Entered DataSetByFeature::Initialize'' s
      in
      if 0 \<noteq> cInstances
      then
        (case ConstructResidualErrors cInstances aTargetData aPredictorScores
                runtimeLearningTypeOrCountTargetClasses s0 of
           (None, s1) \<Rightarrow>
             (True, this, LOG_0 TraceLevelWarning ''WARNING Exited DataSetByFeature::Initialize'' s1)
         | (Some aResidualErrors, s1) \<Rightarrow>
             if 0 \<noteq> cFeatures
             then
               (case ConstructInputData cFeatures aFeatures cInstances aBinnedData s1 of
                  (None, s2) \<Rightarrow>
                    (True, this,
                     LOG_0 TraceLevelWarning ''WARNING Exited DataSetByFeature::Initialize''
                       (free (Some aResidualErrors) s2))
                | (Some aaInputData, s2) \<Rightarrow>
                    (False,
                     this\<lparr>m_aaInputData := Some aaInputData,
                          m_aResidualErrors := Some aResidualErrors,
                          m_cInstances := cInstances,
                          m_cFeatures := cFeatures\<rparr>,
                     LOG_0 TraceLevelInfo ''Exited DataSetByFeature::Initialize'' s2))
             else
               (False,
                this\<lparr>m_aResidualErrors := Some aResidualErrors,
                     m_cInstances := cInstances,
                     m_cFeatures := cFeatures\<rparr>,
                LOG_0 TraceLevelInfo ''Exited DataSetByFeature::Initialize'' s1))
      else
        (False, this\<lparr>m_cFeatures := cFeatures\<rparr>,
         LOG_0 TraceLevelInfo ''Exited DataSetByFeature::Initialize'' s0))"

subsection \<open>Observations on a run\<close>

text \<open>
  The heap before any allocation, for a given allocator behaviour, and the
  object as its constructor leaves it (all fields zero).
\<close>

definition empty_heap :: "(nat \<Rightarrow> bool) \<Rightarrow> 'c heap" where
  "empty_heap av = \<lparr>blocks = (\<lambda>_. None), brk = 0, calls = 0, avail = av, trace = [], ub = False\<rparr>"

definition zero_DataSetByFeature :: DataSetByFeature where
  "zero_DataSetByFeature =
     \<lparr>m_aResidualErrors = None, m_aaInputData = None, m_cInstances = 0, m_cFeatures = 0\<rparr>"

text \<open>What a call added to the trace.\<close>

definition events_since :: "'c heap \<Rightarrow> 'c heap \<Rightarrow> event list" where
  "events_since s s' = drop (length (trace s)) (trace s')"

fun is_alloc :: "event \<Rightarrow> bool" where
  "is_alloc (EvAlloc a n) = True"
| "is_alloc _ = False"

fun is_free :: "event \<Rightarrow> bool" where
  "is_free (EvFree a) = True"
| "is_free _ = False"

fun is_request :: "event \<Rightarrow> bool" where
  "is_request (EvAlloc a n) = True"
| "is_request (EvAllocFail n) = True"
| "is_request _ = False"

fun is_dispatch :: "event \<Rightarrow> bool" where
  "is_dispatch (EvDispatch k n t p r l v) = True"
| "is_dispatch _ = False"

text \<open>The allocator hands out fresh addresses: nothing lives at or above \<open>brk\<close>.\<close>

definition heap_ok :: "'c heap \<Rightarrow> bool" where
  "heap_ok s \<longleftrightarrow> (\<forall>a. brk s \<le> a \<longrightarrow> blocks s a = None)"

text \<open>
  One iteration of the outer loop of \<^verbatim>\<open>ConstructInputData\<close> whose allocation
  succeeds: the state at the test \<^verbatim>\<open>pFeatureEnd != pFeature\<close>. It is the body
  of \<open>fill_features\<close> with the allocation known to return \<open>brk s\<close>
  (\<open>fill_features_step\<close> below).
\<close>

definition fill_one ::
  "Feature list \<Rightarrow> size_t \<Rightarrow> IntEbmType list \<Rightarrow> addr \<Rightarrow> size_t \<Rightarrow> 'w::len word heap \<Rightarrow> 'w word heap" where
  "fill_one aF cI aB aa i s =
     (let s1 = snd (EbmMalloc new_StorageDataType cI s);
          s2 = store_ptr aa i (Some (brk s)) s1;
          fs = read_feature aF i s2
      in copy_cells aB (unat (GetIndexFeatureData (fst fs) * cI)) (brk s) cI 0 (snd fs))"

text \<open>
  What \<open>fill_features\<close>, started at index \<open>i\<close> in state \<open>s\<close> with the slots
  \<open>sl\<close>, leaves behind when it ends at index \<open>i'\<close> in state \<open>s'\<close>: it made
  \<open>i' - i\<close> allocations, at the consecutive addresses from \<open>brk s\<close>, and stored
  them in the slots \<open>i\<close> to \<open>i' - 1\<close>; it touched no older block but the outer
  array; and it stopped either at \<open>cFeatures\<close> or at the first request that the
  allocator refused.
\<close>

definition fill_post ::
  "size_t \<Rightarrow> size_t \<Rightarrow> addr \<Rightarrow> ptr option list \<Rightarrow> size_t \<Rightarrow> 'c heap \<Rightarrow> bool \<Rightarrow> size_t \<Rightarrow> 'c heap \<Rightarrow> bool" where
  "fill_post cF cI aa sl i s ok i' s' \<longleftrightarrow>
     unat i \<le> unat i' \<and> unat i' \<le> unat cF \<and>
     brk s' = brk s + (unat i' - unat i) \<and>
     avail s' = avail s \<and>
     calls s' = calls s + (unat i' - unat i) + (if ok then 0 else 1) \<and>
     (if ok then unat i' = unat cF
      else unat i' < unat cF \<and> \<not> avail s (calls s + (unat i' - unat i))) \<and>
     (\<forall>j < unat i' - unat i. avail s (calls s + j)) \<and>
     trace s' = trace s @ map (\<lambda>k. EvAlloc (brk s + k) (unat cI)) [0..<unat i' - unat i] @
                  (if ok then []
                   else [EvAllocFail (unat cI),
                         EvLog TraceLevelWarning
                           ''WARNING DataSetByFeature::ConstructInputData nullptr == pInputDataTo'']) \<and>
     (\<forall>a. a \<noteq> aa \<and> a < brk s \<longrightarrow> blocks s' a = blocks s a) \<and>
     (\<forall>a. brk s \<le> a \<and> a < brk s + (unat i' - unat i) \<longrightarrow> blocks s' a \<noteq> None) \<and>
     (\<forall>a. brk s + (unat i' - unat i) \<le> a \<longrightarrow> blocks s' a = None) \<and>
     (\<exists>sl'. blocks s' aa = Some (PtrArray sl') \<and> length sl' = length sl \<and>
            (\<forall>k < unat i. sl' ! k = sl ! k) \<and>
            (\<forall>k. unat i \<le> k \<and> k < unat i' \<longrightarrow> sl' ! k = Some (Some (brk s + (k - unat i)))))"

text \<open>
  The trace of a call of \<^verbatim>\<open>ConstructInputData\<close> whose \<open>k\<close>-th request is the
  first that fails, when the heap's next address is \<open>b\<close>: request 0 is the
  outer array, request \<open>k \<ge> 1\<close> the array of the \<open>k\<close>-th feature.
\<close>

definition column_failure_events :: "size_t \<Rightarrow> size_t \<Rightarrow> addr \<Rightarrow> nat \<Rightarrow> event list" where
  "column_failure_events cF cI b k =
     EvLog TraceLevelInfo ''Entered DataSetByFeature::ConstructInputData'' #
     (if k = 0
      then [EvAllocFail (unat cF),
            EvLog TraceLevelWarning
              ''WARNING DataSetByFeature::ConstructInputData nullptr == aaInputDataTo'']
      else EvAlloc b (unat cF) #
           map (\<lambda>j. EvAlloc (Suc b + j) (unat cI)) [0..<k - 1] @
           [EvAllocFail (unat cI),
            EvLog TraceLevelWarning
              ''WARNING DataSetByFeature::ConstructInputData nullptr == pInputDataTo''] @
           map EvFree (rev (map (\<lambda>j. Suc b + j) [0..<k - 1])) @
           [EvFree b])"

text \<open>The addresses allocated, and the addresses freed, in order.\<close>

fun allocated :: "event list \<Rightarrow> addr list" where
  "allocated [] = []"
| "allocated (EvAlloc a n # es) = a # allocated es"
| "allocated (e # es) = allocated es"

fun freed :: "event list \<Rightarrow> addr list" where
  "freed [] = []"
| "freed (EvFree a # es) = a # freed es"
| "freed (e # es) = freed es"

text \<open>
  What the object owns. \<open>ps\<close> lists the per-feature arrays that the slots of
  \<^verbatim>\<open>m_aaInputData\<close> point to. A non-null \<^verbatim>\<open>m_aaInputData\<close> comes with at
  least one feature and with every slot holding a live, non-null array, as
  the two assertions of \<^verbatim>\<open>Destruct\<close> say; the blocks are distinct, as blocks
  handed out by the allocator are.
\<close>

definition owned :: "DataSetByFeature \<Rightarrow> addr list \<Rightarrow> 'c heap \<Rightarrow> bool" where
  "owned this ps s \<longleftrightarrow>
     (case m_aResidualErrors this of
        None \<Rightarrow> True
      | Some r \<Rightarrow> blocks s r \<noteq> None \<and> r \<notin> set ps \<and> Some r \<noteq> m_aaInputData this) \<and>
     (case m_aaInputData this of
        None \<Rightarrow> ps = []
      | Some aa \<Rightarrow>
          1 \<le> m_cFeatures this \<and> length ps = unat (m_cFeatures this) \<and>
          blocks s aa = Some (PtrArray (map (\<lambda>a. Some (Some a)) ps)) \<and>
          distinct ps \<and> aa \<notin> set ps \<and> (\<forall>a \<in> set ps. blocks s a \<noteq> None))"

definition owned_blocks :: "DataSetByFeature \<Rightarrow> addr list \<Rightarrow> addr list" where
  "owned_blocks this ps =
     (case m_aResidualErrors this of None \<Rightarrow> [] | Some r \<Rightarrow> [r]) @
     (case m_aaInputData this of None \<Rightarrow> [] | Some aa \<Rightarrow> ps @ [aa])"

text \<open>
  The column that the copy loop writes for feature \<open>k\<close>: the run of
  \<open>cInstances\<close> codes at \<^verbatim>\<open>&aBinnedData[GetIndexFeatureData() * cInstances]\<close>,
  each cast to the storage type.
\<close>

definition narrowed_column :: "Feature list \<Rightarrow> size_t \<Rightarrow> IntEbmType list \<Rightarrow> nat \<Rightarrow> 'w::len word option list" where
  "narrowed_column aF cI aB k =
     map (\<lambda>j. Some (ucast (aB ! (unat (GetIndexFeatureData (aF ! k) * cI) + j)))) [0..<unat cI]"

text \<open>
  Modelled from the spec: \<^verbatim>\<open>IsNumberConvertable<T, IntEbmType>(data)\<close> is defined
  in a header that is not part of the sources. The spec describes it as the
  predicate that tells whether a value fits a type; here the type is an
  unsigned integer of \<open>w\<close> bits, as \<^verbatim>\<open>size_t\<close> is and as a type of bin indices
  is taken to be.
\<close>

definition IsNumberConvertable :: "nat \<Rightarrow> IntEbmType \<Rightarrow> bool" where
  "IsNumberConvertable w data \<longleftrightarrow> 0 \<le> sint data \<and> sint data < 2 ^ w"

text \<open>
  The four assertions of the copy loop on a code \<^verbatim>\<open>data\<close> of the feature
  \<^verbatim>\<open>pFeature\<close>, in the order of the source: \<^verbatim>\<open>0 <= data\<close>, \<^verbatim>\<open>data\<close> is
  convertible to \<^verbatim>\<open>size_t\<close>, \<^verbatim>\<open>static_cast<size_t>(data) < GetCountBins()\<close>, and
  \<^verbatim>\<open>data\<close> is convertible to \<^verbatim>\<open>StorageDataType\<close>. Assertions are compiled out
  of a release build, so they are no part of \<open>copy_cells\<close>; they say which
  codes the loop takes to be legal.
\<close>

definition asserted_legal :: "'w::len itself \<Rightarrow> Feature \<Rightarrow> IntEbmType \<Rightarrow> bool" where
  "asserted_legal T pFeature data \<longleftrightarrow>
     0 \<le> sint data \<and>
     IsNumberConvertable 64 data \<and>
     unat data < unat (GetCountBins pFeature) \<and>
     IsNumberConvertable LENGTH('w) data"

section \<open>Properties\<close>

subsection \<open>The primitives\<close>

lemma LOG_0_fields [simp]:
  "blocks (LOG_0 l m s) = blocks s"
  "brk (LOG_0 l m s) = brk s"
  "calls (LOG_0 l m s) = calls s"
  "avail (LOG_0 l m s) = avail s"
  "ub (LOG_0 l m s) = ub s"
  "trace (LOG_0 l m s) = trace s @ [EvLog l m]"
  by (simp_all add: LOG_0_def)

lemma InitializeResiduals_Func_fields [simp]:
  "blocks (InitializeResiduals_Func k n t p r l v s) = blocks s"
  "brk (InitializeResiduals_Func k n t p r l v s) = brk s"
  "calls (InitializeResiduals_Func k n t p r l v s) = calls s"
  "avail (InitializeResiduals_Func k n t p r l v s) = avail s"
  "ub (InitializeResiduals_Func k n t p r l v s) = ub s"
  "trace (InitializeResiduals_Func k n t p r l v s) = trace s @ [EvDispatch k n t p r l v]"
  by (simp_all add: InitializeResiduals_Func_def)

lemma events_since_append [simp]:
  "trace s' = trace s @ evs \<Longrightarrow> events_since s s' = evs"
  by (simp add: events_since_def)

lemma heap_ok_empty_heap [simp]: "heap_ok (empty_heap av)"
  by (simp add: heap_ok_def empty_heap_def)

lemma heap_ok_fresh: "heap_ok s \<Longrightarrow> blocks s (brk s) = None"
  by (simp add: heap_ok_def)

lemma free_None [simp]: "free None s = s"
  by (simp add: free_def)

lemma free_live:
  "blocks s a \<noteq> None \<Longrightarrow>
   free (Some a) s = s\<lparr>blocks := (blocks s)(a := None), trace := trace s @ [EvFree a]\<rparr>"
  by (auto simp: free_def)

lemma blocks_restore: "m a = None \<Longrightarrow> (m(a \<mapsto> x))(a := None) = m"
  by (rule ext) simp

lemma IsMultiplyError_iff_unat: "IsMultiplyError a b \<longleftrightarrow> 2 ^ 64 \<le> unat a * unat b"
proof -
  have "(2 ^ 64 \<le> uint a * uint b) = (int (2 ^ 64) \<le> int (unat a * unat b))"
    by simp
  also have "\<dots> = (2 ^ 64 \<le> unat a * unat b)"
    by (rule of_nat_le_iff)
  finally show ?thesis
    by (simp only: IsMultiplyError_def)
qed

lemma unat_mult_no_overflow:
  "\<not> IsMultiplyError a b \<Longrightarrow> unat (a * b) = unat a * unat b"
  by (simp add: IsMultiplyError_iff_unat unat_word_ariths)

lemmas residual_defs =
  ConstructResidualErrors_def Let_def EbmMalloc_def free_def new_FloatEbmType_def

subsection \<open>Loop counters\<close>

text \<open>The recursive equations are unfolded by hand, one iteration at a time.\<close>

declare copy_cells.simps [simp del] fill_features.simps [simp del]
  free_all.simps [simp del] free_columns.simps [simp del]

lemma unat_succ:
  assumes "unat (i::'a::len word) < unat (n::'a word)" shows "unat (i + 1) = Suc (unat i)"
proof -
  have "unat n < 2 ^ LENGTH('a)"
    by (rule unsigned_less)
  then have "Suc (unat i) < 2 ^ LENGTH('a)"
    using assms by linarith
  then show ?thesis
    by (simp add: unat_word_ariths)
qed

lemma succ_eq_iff:
  assumes "unat (i::'a::len word) < unat (n::'a word)" shows "(n = i + 1) = (unat n = Suc (unat i))"
  using unat_succ [OF assms] by (simp add: word_unat_eq_iff)

subsection \<open>The loop of \<^verbatim>\<open>Destruct\<close>\<close>

lemma free_columns_frees:
  assumes "blocks s aa = Some (PtrArray (map (\<lambda>a. Some (Some a)) ps))"
    and "length ps = unat cF" and "unat i < unat cF"
    and "distinct (drop (unat i) ps)" and "aa \<notin> set (drop (unat i) ps)"
    and "\<forall>a \<in> set (drop (unat i) ps). blocks s a \<noteq> None"
  shows "free_columns aa cF i s =
           s\<lparr>blocks := (\<lambda>a. if a \<in> set (drop (unat i) ps) then None else blocks s a),
             trace := trace s @ map EvFree (drop (unat i) ps)\<rparr>"
  using assms
proof (induction "unat cF - unat i" arbitrary: i s)
  case 0
  then show ?case by simp
next
  case (Suc k)
  let ?a = "ps ! unat i"
  have i_lt: "unat i < length ps"
    using Suc.prems by simp
  have dr: "drop (unat i) ps = ?a # drop (Suc (unat i)) ps"
    using i_lt by (simp add: Cons_nth_drop_Suc)
  have ld: "load_ptr aa i s = (Some ?a, s)"
    using Suc.prems(1) i_lt by (simp add: load_ptr_def)
  have live: "blocks s ?a \<noteq> None"
    using Suc.prems(6) dr by simp
  let ?s2 = "s\<lparr>blocks := (blocks s)(?a := None), trace := trace s @ [EvFree ?a]\<rparr>"
  have fr: "free (Some ?a) s = ?s2"
    using live by (rule free_live)
  have ne: "aa \<noteq> ?a"
    using Suc.prems(5) dr by auto
  show ?case
  proof (cases "cF = i + 1")
    case True
    then have "unat cF = Suc (unat i)"
      using succ_eq_iff [OF Suc.prems(3)] by simp
    then have "drop (Suc (unat i)) ps = []"
      using Suc.prems(2) by simp
    then have dr1: "drop (unat i) ps = [?a]"
      using dr by simp
    have "free_columns aa cF i s = ?s2"
      by (subst free_columns.simps) (simp add: ld fr True)
    also have "\<dots> = s\<lparr>blocks := (\<lambda>a. if a \<in> set (drop (unat i) ps) then None else blocks s a),
             trace := trace s @ map EvFree (drop (unat i) ps)\<rparr>"
      by (simp add: dr1 fun_eq_iff)
    finally show ?thesis .
  next
    case False
    have su: "unat (i + 1) = Suc (unat i)"
      by (rule unat_succ [OF Suc.prems(3)])
    have lt': "unat (i + 1) < unat cF"
      using False succ_eq_iff [OF Suc.prems(3)] Suc.prems(3) su by simp
    have k: "k = unat cF - unat (i + 1)"
      using Suc.hyps(2) su by simp
    have step: "free_columns aa cF i s = free_columns aa cF (i + 1) ?s2"
      by (subst free_columns.simps) (simp add: ld fr False)
    have "free_columns aa cF (i + 1) ?s2 =
            ?s2\<lparr>blocks := (\<lambda>a. if a \<in> set (drop (unat (i + 1)) ps) then None else blocks ?s2 a),
                 trace := trace ?s2 @ map EvFree (drop (unat (i + 1)) ps)\<rparr>"
    proof (rule Suc.hyps(1) [OF k])
      show "blocks ?s2 aa = Some (PtrArray (map (\<lambda>a. Some (Some a)) ps))"
        using Suc.prems(1) ne by simp
      show "length ps = unat cF" by (rule Suc.prems(2))
      show "unat (i + 1) < unat cF" by (rule lt')
      show "distinct (drop (unat (i + 1)) ps)"
        using Suc.prems(4) dr su by simp
      show "aa \<notin> set (drop (unat (i + 1)) ps)"
        using Suc.prems(5) dr su by simp
      show "\<forall>a \<in> set (drop (unat (i + 1)) ps). blocks ?s2 a \<noteq> None"
        using Suc.prems(4,6) dr su by auto
    qed
    also have "\<dots> = s\<lparr>blocks := (\<lambda>a. if a \<in> set (drop (unat i) ps) then None else blocks s a),
             trace := trace s @ map EvFree (drop (unat i) ps)\<rparr>"
      by (simp add: dr su fun_eq_iff)
    finally show ?thesis
      using step by simp
  qed
qed

subsection \<open>The copy loop leaves the rest of the heap alone\<close>

lemma store_cell_fields [simp]:
  "brk (store_cell p j v s) = brk s"
  "calls (store_cell p j v s) = calls s"
  "avail (store_cell p j v s) = avail s"
  "trace (store_cell p j v s) = trace s"
  by (simp_all add: store_cell_def split: option.splits block.splits)

lemma store_cell_blocks_other [simp]:
  "a \<noteq> p \<Longrightarrow> blocks (store_cell p j v s) a = blocks s a"
  by (simp add: store_cell_def split: option.splits block.splits)

lemma store_cell_blocks_live [simp]:
  "blocks (store_cell p j v s) a = None \<longleftrightarrow> blocks s a = None"
  by (simp add: store_cell_def split: option.splits block.splits)

lemma read_binned_fields [simp]:
  "blocks (snd (read_binned aB k s)) = blocks s"
  "brk (snd (read_binned aB k s)) = brk s"
  "calls (snd (read_binned aB k s)) = calls s"
  "avail (snd (read_binned aB k s)) = avail s"
  "trace (snd (read_binned aB k s)) = trace s"
  by (simp_all add: read_binned_def)

lemma read_feature_fields [simp]:
  "blocks (snd (read_feature aF i s)) = blocks s"
  "brk (snd (read_feature aF i s)) = brk s"
  "calls (snd (read_feature aF i s)) = calls s"
  "avail (snd (read_feature aF i s)) = avail s"
  "trace (snd (read_feature aF i s)) = trace s"
  by (simp_all add: read_feature_def)

lemma copy_cells_step:
  "copy_cells aB off p cI j s =
     (let s2 = store_cell p j (ucast (fst (read_binned aB (off + unat j) s)))
                 (snd (read_binned aB (off + unat j) s))
      in if cI \<noteq> j + 1 then copy_cells aB off p cI (j + 1) s2 else s2)"
  by (subst copy_cells.simps) (simp add: case_prod_beta Let_def)

lemma copy_cells_fields [simp]:
  "brk (copy_cells aB off p cI j s) = brk s \<and>
   calls (copy_cells aB off p cI j s) = calls s \<and>
   avail (copy_cells aB off p cI j s) = avail s \<and>
   trace (copy_cells aB off p cI j s) = trace s \<and>
   (blocks (copy_cells aB off p cI j s) a = None \<longleftrightarrow> blocks s a = None) \<and>
   (a \<noteq> p \<longrightarrow> blocks (copy_cells aB off p cI j s) a = blocks s a)"
proof (induction aB off p cI j s rule: copy_cells.induct)
  case (1 aB off p cI j s)
  let ?s2 = "store_cell p j (ucast (fst (read_binned aB (off + unat j) s)))
                 (snd (read_binned aB (off + unat j) s))"
  show ?case
  proof (cases "cI = j + 1")
    case True
    then have "copy_cells aB off p cI j s = ?s2"
      by (subst copy_cells_step) (simp add: Let_def)
    then show ?thesis
      by simp
  next
    case False
    then have step: "copy_cells aB off p cI j s = copy_cells aB off p cI (j + 1) ?s2"
      by (subst copy_cells_step) (simp add: Let_def)
    have IH: "brk (copy_cells aB off p cI (j + 1) ?s2) = brk ?s2 \<and>
      calls (copy_cells aB off p cI (j + 1) ?s2) = calls ?s2 \<and>
      avail (copy_cells aB off p cI (j + 1) ?s2) = avail ?s2 \<and>
      trace (copy_cells aB off p cI (j + 1) ?s2) = trace ?s2 \<and>
      (blocks (copy_cells aB off p cI (j + 1) ?s2) a = None \<longleftrightarrow> blocks ?s2 a = None) \<and>
      (a \<noteq> p \<longrightarrow> blocks (copy_cells aB off p cI (j + 1) ?s2) a = blocks ?s2 a)"
      using False by (intro "1.IH" [OF prod.collapse refl refl]) simp
    show ?thesis
      unfolding step using IH by simp
  qed
qed

subsection \<open>The loop over the features\<close>

lemma fill_features_step:
  "fill_features aF cF cI aB aa i s =
     (if avail s (calls s)
      then (if cF \<noteq> i + 1 then fill_features aF cF cI aB aa (i + 1) (fill_one aF cI aB aa i s)
            else (True, i + 1, fill_one aF cI aB aa i s))
      else (False, i,
            s\<lparr>calls := Suc (calls s),
              trace := trace s @
                [EvAllocFail (unat cI),
                 EvLog TraceLevelWarning
                   ''WARNING DataSetByFeature::ConstructInputData nullptr == pInputDataTo'']\<rparr>))"
  by (subst fill_features.simps)
     (simp add: fill_one_def EbmMalloc_def Let_def case_prod_beta LOG_0_def)

lemma store_ptr_fields [simp]:
  "brk (store_ptr aa i p s) = brk s"
  "calls (store_ptr aa i p s) = calls s"
  "avail (store_ptr aa i p s) = avail s"
  "trace (store_ptr aa i p s) = trace s"
  by (simp_all add: store_ptr_def split: option.splits block.splits)

lemma store_ptr_blocks_other [simp]:
  "a \<noteq> aa \<Longrightarrow> blocks (store_ptr aa i p s) a = blocks s a"
  by (simp add: store_ptr_def split: option.splits block.splits)

lemma store_ptr_blocks_live [simp]:
  "blocks (store_ptr aa i p s) a = None \<longleftrightarrow> blocks s a = None"
  by (simp add: store_ptr_def split: option.splits block.splits)

lemma store_ptr_blocks_at:
  "blocks s aa = Some (PtrArray sl) \<Longrightarrow> unat i < length sl \<Longrightarrow>
   blocks (store_ptr aa i p s) aa = Some (PtrArray (sl[unat i := Some p]))"
  by (simp add: store_ptr_def)

lemma fill_one_fields:
  assumes "avail s (calls s)"
  shows "brk (fill_one aF cI aB aa i s) = Suc (brk s)"
    and "calls (fill_one aF cI aB aa i s) = Suc (calls s)"
    and "avail (fill_one aF cI aB aa i s) = avail s"
    and "trace (fill_one aF cI aB aa i s) = trace s @ [EvAlloc (brk s) (unat cI)]"
    and "blocks (fill_one aF cI aB aa i s) (brk s) \<noteq> None"
    and "a \<noteq> aa \<Longrightarrow> a \<noteq> brk s \<Longrightarrow> blocks (fill_one aF cI aB aa i s) a = blocks s a"
    and "blocks s aa = Some (PtrArray sl) \<Longrightarrow> unat i < length sl \<Longrightarrow> aa \<noteq> brk s \<Longrightarrow>
         blocks (fill_one aF cI aB aa i s) aa = Some (PtrArray (sl[unat i := Some (Some (brk s))]))"
  using assms
  by (simp_all add: fill_one_def Let_def EbmMalloc_def store_ptr_blocks_at)

lemma fill_features_structure:
  assumes "heap_ok s" and "blocks s aa = Some (PtrArray sl)" and "length sl = unat cF"
    and "aa < brk s" and "unat i < unat cF"
    and "fill_features aF cF cI aB aa i s = (ok, i', s')"
  shows "fill_post cF cI aa sl i s ok i' s'"
  using assms
proof (induction "unat cF - unat i" arbitrary: i s sl)
  case 0
  then show ?case by simp
next
  case (Suc m)
  note ok = Suc.prems(1) and at = Suc.prems(2) and len = Suc.prems(3)
    and old = Suc.prems(4) and lt = Suc.prems(5) and run = Suc.prems(6)
  have fresh: "\<And>a. brk s \<le> a \<Longrightarrow> blocks s a = None"
    using ok by (simp add: heap_ok_def)
  show ?case
  proof (cases "avail s (calls s)")
    case False
    then have "ok = False" "i' = i"
      "s' = s\<lparr>calls := Suc (calls s),
              trace := trace s @
                [EvAllocFail (unat cI),
                 EvLog TraceLevelWarning
                   ''WARNING DataSetByFeature::ConstructInputData nullptr == pInputDataTo'']\<rparr>"
      using run by (simp_all add: fill_features_step)
    then show ?thesis
      using False at lt fresh by (auto simp: fill_post_def)
  next
    case True
    let ?b = "brk s"
    let ?s4 = "fill_one aF cI aB aa i s"
    let ?sl4 = "sl[unat i := Some (Some ?b)]"
    note f = fill_one_fields [OF True, where aF = aF and cI = cI and aB = aB and aa = aa and i = i]
    have ne: "aa \<noteq> ?b"
      using old by simp
    have i_len: "unat i < length sl"
      using lt len by simp
    have at4: "blocks ?s4 aa = Some (PtrArray ?sl4)"
      by (rule f(7) [OF at i_len ne])
    have su: "unat (i + 1) = Suc (unat i)"
      by (rule unat_succ [OF lt])
    show ?thesis
    proof (cases "cF = i + 1")
      case last: True
      then have res: "ok = True" "i' = i + 1" "s' = ?s4"
        using run True by (simp_all add: fill_features_step)
      have cF: "unat cF = Suc (unat i)"
        using last su by simp
      have "\<forall>a. a \<noteq> aa \<and> a < ?b \<longrightarrow> blocks ?s4 a = blocks s a"
        using f(6) by simp
      moreover have "\<forall>a. Suc ?b \<le> a \<longrightarrow> blocks ?s4 a = None"
        using f(6) fresh ne old by simp
      moreover have "\<exists>sl'. blocks ?s4 aa = Some (PtrArray sl') \<and> length sl' = length sl \<and>
            (\<forall>k < unat i. sl' ! k = sl ! k) \<and>
            (\<forall>k. unat i \<le> k \<and> k < Suc (unat i) \<longrightarrow> sl' ! k = Some (Some (?b + (k - unat i))))"
      proof (intro exI conjI)
        show "blocks ?s4 aa = Some (PtrArray ?sl4)" by (rule at4)
        show "length ?sl4 = length sl" by simp
        show "\<forall>k < unat i. ?sl4 ! k = sl ! k" by simp
        show "\<forall>k. unat i \<le> k \<and> k < Suc (unat i) \<longrightarrow> ?sl4 ! k = Some (Some (?b + (k - unat i)))"
          using i_len by (auto simp: less_Suc_eq_le)
      qed
      moreover have "\<forall>a. ?b \<le> a \<and> a < Suc ?b \<longrightarrow> blocks ?s4 a \<noteq> None"
        using f(5) by (auto simp: less_Suc_eq_le)
      ultimately show ?thesis
        unfolding fill_post_def res using True f(1-4) cF su
        by simp
    next
      case more: False
      then have rec: "fill_features aF cF cI aB aa (i + 1) ?s4 = (ok, i', s')"
        using run True by (simp add: fill_features_step)
      have lt': "unat (i + 1) < unat cF"
        using more succ_eq_iff [OF lt] lt su by simp
      have m: "m = unat cF - unat (i + 1)"
        using Suc.hyps(2) su by simp
      have ok4: "heap_ok ?s4"
        unfolding heap_ok_def using f(1) f(6) fresh ne old by simp
      have post: "fill_post cF cI aa ?sl4 (i + 1) ?s4 ok i' s'"
      proof (rule Suc.hyps(1) [OF m ok4 at4 _ _ lt' rec])
        show "length ?sl4 = unat cF" using len by simp
        show "aa < brk ?s4" using old f(1) by simp
      qed
      let ?n' = "unat i' - Suc (unat i)"
      let ?n = "unat i' - unat i"
      have ge: "Suc (unat i) \<le> unat i'" and le: "unat i' \<le> unat cF"
        using post su by (simp_all add: fill_post_def)
      have n: "?n = Suc ?n'"
        using ge by simp
      have p_brk: "brk s' = ?b + ?n" and p_avail: "avail s' = avail s"
        and p_calls: "calls s' = calls s + ?n + (if ok then 0 else 1)"
        using post su f(1-3) ge by (simp_all add: fill_post_def)
      have q_ok: "if ok then unat i' = unat cF
                  else unat i' < unat cF \<and> \<not> avail ?s4 (calls ?s4 + ?n')"
        using post unfolding fill_post_def su by blast
      have ceq: "Suc (calls s) + ?n' = calls s + ?n"
        using n by simp
      have "avail ?s4 (calls ?s4 + ?n') = avail s (calls s + ?n)"
        unfolding f(2) f(3) ceq ..
      with q_ok have p_ok: "if ok then unat i' = unat cF
                  else unat i' < unat cF \<and> \<not> avail s (calls s + ?n)"
        by (cases ok) auto
      have p_all: "\<forall>j < ?n. avail s (calls s + j)"
      proof (intro allI impI)
        fix j assume j: "j < ?n"
        show "avail s (calls s + j)"
        proof (cases j)
          case 0
          then show ?thesis using True by simp
        next
          case (Suc j')
          then have "j' < ?n'" using j n by simp
          then have "avail ?s4 (calls ?s4 + j')"
            using post su by (simp add: fill_post_def)
          then show ?thesis
            using Suc f(2,3) by simp
        qed
      qed
      have upt: "map (\<lambda>k. EvAlloc (?b + k) (unat cI)) [0..<?n] =
                   EvAlloc ?b (unat cI) # map (\<lambda>k. EvAlloc (Suc ?b + k) (unat cI)) [0..<?n']"
        unfolding n by (simp add: upt_rec [of 0] map_Suc_upt [symmetric] del: upt_Suc)
      have p_trace: "trace s' = trace s @ map (\<lambda>k. EvAlloc (?b + k) (unat cI)) [0..<?n] @
                  (if ok then []
                   else [EvAllocFail (unat cI),
                         EvLog TraceLevelWarning
                           ''WARNING DataSetByFeature::ConstructInputData nullptr == pInputDataTo''])"
        using post su f(1,4) unfolding upt by (simp add: fill_post_def)
      have p_old: "\<forall>a. a \<noteq> aa \<and> a < ?b \<longrightarrow> blocks s' a = blocks s a"
      proof (intro allI impI)
        fix a assume a: "a \<noteq> aa \<and> a < ?b"
        then have "blocks s' a = blocks ?s4 a"
          using post f(1) by (simp add: fill_post_def)
        also have "\<dots> = blocks s a"
          using a f(6) by simp
        finally show "blocks s' a = blocks s a" .
      qed
      have p_live: "\<forall>a. ?b \<le> a \<and> a < ?b + ?n \<longrightarrow> blocks s' a \<noteq> None"
      proof (intro allI impI)
        fix a assume a: "?b \<le> a \<and> a < ?b + ?n"
        show "blocks s' a \<noteq> None"
        proof (cases "a = ?b")
          case True
          then have "blocks s' a = blocks ?s4 a"
            using post f(1) ne by (simp add: fill_post_def)
          then show ?thesis
            using True f(5) by simp
        next
          case False
          then have "brk ?s4 \<le> a \<and> a < brk ?s4 + ?n'"
            using a n f(1) by simp
          then show ?thesis
            using post su by (simp add: fill_post_def)
        qed
      qed
      have p_none: "\<forall>a. ?b + ?n \<le> a \<longrightarrow> blocks s' a = None"
        using post su f(1) n by (simp add: fill_post_def)
      obtain sl' where sl': "blocks s' aa = Some (PtrArray sl')" "length sl' = length ?sl4"
        "\<forall>k < Suc (unat i). sl' ! k = ?sl4 ! k"
        "\<forall>k. Suc (unat i) \<le> k \<and> k < unat i' \<longrightarrow> sl' ! k = Some (Some (Suc ?b + (k - Suc (unat i))))"
        using post su f(1) unfolding fill_post_def by auto
      have p_sl: "\<exists>sl'. blocks s' aa = Some (PtrArray sl') \<and> length sl' = length sl \<and>
            (\<forall>k < unat i. sl' ! k = sl ! k) \<and>
            (\<forall>k. unat i \<le> k \<and> k < unat i' \<longrightarrow> sl' ! k = Some (Some (?b + (k - unat i))))"
      proof (intro exI conjI allI impI)
        show "blocks s' aa = Some (PtrArray sl')" by (rule sl'(1))
        show "length sl' = length sl" using sl'(2) by simp
      next
        fix k assume "k < unat i"
        then show "sl' ! k = sl ! k" using sl'(3) by simp
      next
        fix k assume k: "unat i \<le> k \<and> k < unat i'"
        show "sl' ! k = Some (Some (?b + (k - unat i)))"
        proof (cases "k = unat i")
          case True
          then show ?thesis using sl'(3) i_len by simp
        next
          case False
          then have "Suc (unat i) \<le> k \<and> k < unat i'" using k by simp
          then have "sl' ! k = Some (Some (Suc ?b + (k - Suc (unat i))))"
            using sl'(4) by blast
          moreover have "Suc ?b + (k - Suc (unat i)) = ?b + (k - unat i)"
            using False k by arith
          ultimately show ?thesis by (simp only:)
        qed
      qed
      show ?thesis
        unfolding fill_post_def
        using ge le p_brk p_avail p_calls p_ok p_all p_trace p_old p_live p_none p_sl
        by (intro conjI) simp_all
    qed
  qed
qed

subsection \<open>The loop under \<^verbatim>\<open>free_all\<close>\<close>

lemma free_all_frees:
  assumes "blocks s aa = Some (PtrArray sl)" and "unat i \<le> length sl" and "unat i \<le> length ps"
    and "\<forall>k < unat i. sl ! k = Some (Some (ps ! k))"
    and "distinct (take (unat i) ps)" and "aa \<notin> set (take (unat i) ps)"
    and "\<forall>a \<in> set (take (unat i) ps). blocks s a \<noteq> None"
  shows "free_all aa i s =
           s\<lparr>blocks := (\<lambda>a. if a \<in> set (take (unat i) ps) then None else blocks s a),
             trace := trace s @ map EvFree (rev (take (unat i) ps))\<rparr>"
  using assms
proof (induction "unat i" arbitrary: i s)
  case 0
  then have "i = 0"
    by (simp add: unat_eq_0)
  then show ?case
    by (subst free_all.simps) simp
next
  case (Suc m)
  have nz: "i \<noteq> 0"
    using Suc.hyps(2) by auto
  have m: "m = unat (i - 1)"
    using Suc.hyps(2) nz by (simp add: unat_minus_one)
  let ?a = "ps ! m"
  have "m < length ps"
    using Suc.hyps(2) Suc.prems(3) by simp
  then have "take (Suc m) ps = take m ps @ [?a]"
    by (rule take_Suc_conv_app_nth)
  then have tk: "take (unat i) ps = take m ps @ [?a]"
    using Suc.hyps(2) by simp
  have ld: "load_ptr aa (i - 1) s = (Some ?a, s)"
    using Suc.prems(1,2,4) Suc.hyps(2) m by (simp add: load_ptr_def)
  have live: "blocks s ?a \<noteq> None"
    using Suc.prems(7) tk by simp
  let ?s2 = "s\<lparr>blocks := (blocks s)(?a := None), trace := trace s @ [EvFree ?a]\<rparr>"
  have fr: "free (Some ?a) s = ?s2"
    using live by (rule free_live)
  have ne: "aa \<noteq> ?a"
    using Suc.prems(6) tk by auto
  have step: "free_all aa i s = free_all aa (i - 1) ?s2"
    by (subst free_all.simps) (simp add: nz ld fr)
  have "free_all aa (i - 1) ?s2 =
          ?s2\<lparr>blocks := (\<lambda>a. if a \<in> set (take (unat (i - 1)) ps) then None else blocks ?s2 a),
               trace := trace ?s2 @ map EvFree (rev (take (unat (i - 1)) ps))\<rparr>"
  proof (rule Suc.hyps(1) [OF m])
    show "blocks ?s2 aa = Some (PtrArray sl)"
      using Suc.prems(1) ne by simp
    show "unat (i - 1) \<le> length sl"
      using Suc.prems(2) Suc.hyps(2) m by simp
    show "unat (i - 1) \<le> length ps"
      using Suc.prems(3) Suc.hyps(2) m by simp
    show "\<forall>k < unat (i - 1). sl ! k = Some (Some (ps ! k))"
      using Suc.prems(4) Suc.hyps(2) m by simp
    show "distinct (take (unat (i - 1)) ps)"
      using Suc.prems(5) tk m by simp
    show "aa \<notin> set (take (unat (i - 1)) ps)"
      using Suc.prems(6) tk m by simp
    show "\<forall>a \<in> set (take (unat (i - 1)) ps). blocks ?s2 a \<noteq> None"
      using Suc.prems(5,7) tk m by auto
  qed
  also have "\<dots> = s\<lparr>blocks := (\<lambda>a. if a \<in> set (take (unat i) ps) then None else blocks s a),
             trace := trace s @ map EvFree (rev (take (unat i) ps))\<rparr>"
    unfolding tk m [symmetric] by (simp add: fun_eq_iff)
  finally show ?case
    using step by simp
qed

subsection \<open>\<^verbatim>\<open>ConstructInputData\<close> and the first request that fails\<close>

lemma first_failure_unique:
  assumes "\<forall>j < n. av (c + j)" and "\<not> av (c + n)" and "\<forall>j < k. av (c + j)" and "\<not> av (c + k)"
  shows "n = (k::nat)"
  using assms by (metis nat_neq_iff)

lemma ConstructInputData_outer_fails:
  assumes "\<not> avail s (calls s)"
  shows "ConstructInputData cF aF cI aB s =
           (None, s\<lparr>calls := Suc (calls s),
                     trace := trace s @ column_failure_events cF cI (brk s) 0\<rparr>)"
  using assms
  by (simp add: ConstructInputData_def EbmMalloc_def Let_def LOG_0_def column_failure_events_def)

lemma ConstructInputData_unfold:
  assumes av: "avail s (calls s)"
  shows "ConstructInputData cF aF cI aB s =
     (case fill_features aF cF cI aB (brk s) 0
             (s\<lparr>blocks := (blocks s)(brk s \<mapsto> PtrArray (replicate (unat cF) None)),
                brk := Suc (brk s), calls := Suc (calls s),
                trace := trace s @ [EvLog TraceLevelInfo ''Entered DataSetByFeature::ConstructInputData'',
                                    EvAlloc (brk s) (unat cF)]\<rparr>) of
        (True, i, s2) \<Rightarrow>
          (Some (brk s), LOG_0 TraceLevelInfo ''Exited DataSetByFeature::ConstructInputData'' s2)
      | (False, i, s2) \<Rightarrow> (None, free (Some (brk s)) (free_all (brk s) i s2)))"
  using av
  by (simp add: ConstructInputData_def EbmMalloc_def Let_def LOG_0_def new_StorageDataType_ptr_def)

lemma ConstructInputData_rollback:
  assumes ok: "heap_ok s" and cF: "0 < unat cF" and k: "k \<le> unat cF"
    and before: "\<forall>j < k. avail s (calls s + j)" and at: "\<not> avail s (calls s + k)"
    and run: "ConstructInputData cF aF cI aB s = (p, s')"
  shows "p = None \<and> blocks s' = blocks s \<and>
         trace s' = trace s @ column_failure_events cF cI (brk s) k \<and>
         calls s' = calls s + k + 1 \<and> brk s' = brk s + k \<and> avail s' = avail s"
proof (cases "k = 0")
  case True
  then have "\<not> avail s (calls s)"
    using at by simp
  then show ?thesis
    using run True by (auto simp: ConstructInputData_outer_fails)
next
  case False
  then have av: "avail s (calls s)"
    using before by (metis add.right_neutral gr0I)
  let ?b = "brk s"
  let ?sl = "replicate (unat cF) (None :: ptr option)"
  let ?s1 = "s\<lparr>blocks := (blocks s)(?b \<mapsto> PtrArray ?sl),
                brk := Suc ?b, calls := Suc (calls s),
                trace := trace s @ [EvLog TraceLevelInfo ''Entered DataSetByFeature::ConstructInputData'',
                                    EvAlloc ?b (unat cF)]\<rparr>"
  have fresh: "\<And>a. ?b \<le> a \<Longrightarrow> blocks s a = None"
    using ok by (simp add: heap_ok_def)
  obtain r i' s2 where fill: "fill_features aF cF cI aB ?b 0 ?s1 = (r, i', s2)"
    by (cases "fill_features aF cF cI aB ?b 0 ?s1")
  have ok1: "heap_ok ?s1"
    using fresh by (simp add: heap_ok_def)
  have post: "fill_post cF cI ?b ?sl 0 ?s1 r i' s2"
    by (rule fill_features_structure [OF ok1 _ _ _ _ fill]) (simp_all add: cF)
  let ?n = "unat i'"
  have p_le: "?n \<le> unat cF" and p_brk: "brk s2 = Suc ?b + ?n" and p_avail: "avail s2 = avail s"
    and p_calls: "calls s2 = Suc (calls s) + ?n + (if r then 0 else 1)"
    and p_all: "\<forall>j < ?n. avail s (Suc (calls s) + j)"
    and p_old: "\<forall>a. a \<noteq> ?b \<and> a < Suc ?b \<longrightarrow> blocks s2 a = blocks ?s1 a"
    and p_live: "\<forall>a. Suc ?b \<le> a \<and> a < Suc ?b + ?n \<longrightarrow> blocks s2 a \<noteq> None"
    and p_none: "\<forall>a. Suc ?b + ?n \<le> a \<longrightarrow> blocks s2 a = None"
    using post by (simp_all add: fill_post_def)
  have p_ok: "if r then ?n = unat cF else ?n < unat cF \<and> \<not> avail s (Suc (calls s) + ?n)"
    using post by (cases r) (simp_all add: fill_post_def)
  have p_trace: "trace s2 = trace ?s1 @ map (\<lambda>k. EvAlloc (Suc ?b + k) (unat cI)) [0..<?n] @
                  (if r then []
                   else [EvAllocFail (unat cI),
                         EvLog TraceLevelWarning
                           ''WARNING DataSetByFeature::ConstructInputData nullptr == pInputDataTo''])"
    using post by (cases r) (simp_all add: fill_post_def)
  obtain sl' where sl': "blocks s2 ?b = Some (PtrArray sl')" "length sl' = unat cF"
    "\<forall>k < ?n. sl' ! k = Some (Some (Suc ?b + k))"
    using post unfolding fill_post_def by auto
  have k1: "k - 1 < unat cF" "Suc (calls s) + (k - 1) = calls s + k"
    using False k by simp_all
  have not_r: "\<not> r"
  proof
    assume r
    then have "?n = unat cF" using p_ok by simp
    then have "avail s (Suc (calls s) + (k - 1))" using p_all k1(1) by simp
    then show False using at k1(2) by simp
  qed
  have n: "?n = k - 1"
  proof (rule first_failure_unique [where av = "avail s" and c = "Suc (calls s)"])
    show "\<forall>j < ?n. avail s (Suc (calls s) + j)" by (rule p_all)
    show "\<not> avail s (Suc (calls s) + ?n)" using p_ok not_r by simp
    show "\<forall>j < k - 1. avail s (Suc (calls s) + j)"
      using before by (metis Suc_eq_plus1 add_Suc_shift less_diff_conv)
    show "\<not> avail s (Suc (calls s) + (k - 1))" using at k1(2) by simp
  qed
  let ?ps = "map (\<lambda>j. Suc ?b + j) [0..<?n]"
  have tk: "take ?n ?ps = ?ps"
    by simp
  have fa: "free_all ?b i' s2 =
              s2\<lparr>blocks := (\<lambda>a. if a \<in> set (take ?n ?ps) then None else blocks s2 a),
                 trace := trace s2 @ map EvFree (rev (take ?n ?ps))\<rparr>"
  proof (rule free_all_frees [OF sl'(1)])
    show "?n \<le> length sl'" using sl'(2) p_le by simp
    show "?n \<le> length ?ps" by simp
    show "\<forall>k < ?n. sl' ! k = Some (Some (?ps ! k))" using sl'(3) by simp
    show "distinct (take ?n ?ps)" unfolding tk by (simp add: distinct_map inj_on_def)
    show "?b \<notin> set (take ?n ?ps)" unfolding tk by auto
    show "\<forall>a \<in> set (take ?n ?ps). blocks s2 a \<noteq> None" unfolding tk using p_live by auto
  qed
  let ?s3 = "free_all ?b i' s2"
  have b3: "blocks ?s3 ?b \<noteq> None"
    unfolding fa tk using sl'(1) by auto
  have res: "p = None" "s' = free (Some ?b) ?s3"
    using run not_r fill by (simp_all add: ConstructInputData_unfold [OF av])
  have s': "s' = ?s3\<lparr>blocks := (blocks ?s3)(?b := None), trace := trace ?s3 @ [EvFree ?b]\<rparr>"
    unfolding res(2) using b3 by (rule free_live)
  have "blocks s' a = blocks s a" for a
  proof -
    consider "a < ?b" | "a = ?b" | "Suc ?b \<le> a" "a < Suc ?b + ?n" | "Suc ?b + ?n \<le> a"
      by linarith
    then show ?thesis
    proof cases
      case 1
      then have "a \<notin> set ?ps" by auto
      then have "blocks s' a = blocks s2 a"
        unfolding s' fa tk using 1 by simp
      then show ?thesis using p_old 1 by simp
    next
      case 2
      then show ?thesis unfolding s' using fresh by simp
    next
      case 3
      then have "a \<in> set ?ps"
        by (auto simp: image_iff intro!: bexI [where x = "a - Suc ?b"])
      then have "blocks s' a = None"
        unfolding s' fa tk by simp
      then show ?thesis using fresh 3 by simp
    next
      case 4
      then have "a \<notin> set ?ps" by auto
      then have "blocks s' a = blocks s2 a"
        unfolding s' fa tk using 4 by simp
      then show ?thesis using p_none 4 fresh by simp
    qed
  qed
  then have "blocks s' = blocks s"
    by (rule ext)
  moreover have "trace s' = trace s @ column_failure_events cF cI ?b k"
    unfolding s' fa tk using p_trace not_r False n
    by (simp add: column_failure_events_def)
  moreover have "calls s' = calls s + k + 1" "brk s' = ?b + k" "avail s' = avail s"
    unfolding s' fa using p_calls p_brk p_avail not_r n False by simp_all
  ultimately show ?thesis
    using res(1) by simp
qed

lemma ConstructInputData_complete:
  assumes ok: "heap_ok s" and cF: "0 < unat cF"
    and all: "\<forall>j \<le> unat cF. avail s (calls s + j)"
    and run: "ConstructInputData cF aF cI aB s = (p, s')"
  shows "p = Some (brk s) \<and>
         blocks s' (brk s) = Some (PtrArray (map (\<lambda>k. Some (Some (Suc (brk s) + k))) [0..<unat cF])) \<and>
         (\<forall>k < unat cF. blocks s' (Suc (brk s) + k) \<noteq> None) \<and>
         (\<forall>a < brk s. blocks s' a = blocks s a) \<and>
         heap_ok s' \<and> brk s' = Suc (brk s) + unat cF \<and> avail s' = avail s \<and>
         calls s' = Suc (calls s) + unat cF \<and>
         trace s' = trace s @
           EvLog TraceLevelInfo ''Entered DataSetByFeature::ConstructInputData'' #
           EvAlloc (brk s) (unat cF) #
           map (\<lambda>k. EvAlloc (Suc (brk s) + k) (unat cI)) [0..<unat cF] @
           [EvLog TraceLevelInfo ''Exited DataSetByFeature::ConstructInputData'']"
proof -
  have av: "avail s (calls s)"
    using all by (metis add.right_neutral le0)
  let ?b = "brk s"
  let ?sl = "replicate (unat cF) (None :: ptr option)"
  let ?s1 = "s\<lparr>blocks := (blocks s)(?b \<mapsto> PtrArray ?sl),
                brk := Suc ?b, calls := Suc (calls s),
                trace := trace s @ [EvLog TraceLevelInfo ''Entered DataSetByFeature::ConstructInputData'',
                                    EvAlloc ?b (unat cF)]\<rparr>"
  have fresh: "\<And>a. ?b \<le> a \<Longrightarrow> blocks s a = None"
    using ok by (simp add: heap_ok_def)
  obtain r i' s2 where fill: "fill_features aF cF cI aB ?b 0 ?s1 = (r, i', s2)"
    by (cases "fill_features aF cF cI aB ?b 0 ?s1")
  have ok1: "heap_ok ?s1"
    using fresh by (simp add: heap_ok_def)
  have post: "fill_post cF cI ?b ?sl 0 ?s1 r i' s2"
    by (rule fill_features_structure [OF ok1 _ _ _ _ fill]) (simp_all add: cF)
  let ?n = "unat i'"
  have p_brk: "brk s2 = Suc ?b + ?n" and p_avail: "avail s2 = avail s"
    and p_calls: "calls s2 = Suc (calls s) + ?n + (if r then 0 else 1)"
    and p_old: "\<forall>a. a \<noteq> ?b \<and> a < Suc ?b \<longrightarrow> blocks s2 a = blocks ?s1 a"
    and p_live: "\<forall>a. Suc ?b \<le> a \<and> a < Suc ?b + ?n \<longrightarrow> blocks s2 a \<noteq> None"
    and p_none: "\<forall>a. Suc ?b + ?n \<le> a \<longrightarrow> blocks s2 a = None"
    using post by (simp_all add: fill_post_def)
  have p_ok: "if r then ?n = unat cF else ?n < unat cF \<and> \<not> avail s (Suc (calls s) + ?n)"
    using post by (cases r) (simp_all add: fill_post_def)
  have p_trace: "trace s2 = trace ?s1 @ map (\<lambda>k. EvAlloc (Suc ?b + k) (unat cI)) [0..<?n] @
                  (if r then []
                   else [EvAllocFail (unat cI),
                         EvLog TraceLevelWarning
                           ''WARNING DataSetByFeature::ConstructInputData nullptr == pInputDataTo''])"
    using post by (cases r) (simp_all add: fill_post_def)
  obtain sl' where sl': "blocks s2 ?b = Some (PtrArray sl')" "length sl' = unat cF"
    "\<forall>k < ?n. sl' ! k = Some (Some (Suc ?b + k))"
    using post unfolding fill_post_def by auto
  have r: r
  proof (rule ccontr)
    assume "\<not> r"
    then have "?n < unat cF" "\<not> avail s (Suc (calls s) + ?n)"
      using p_ok by simp_all
    moreover have "avail s (calls s + Suc ?n)"
      using all \<open>?n < unat cF\<close> by (metis Suc_leI)
    ultimately show False by simp
  qed
  then have n: "?n = unat cF"
    using p_ok by simp
  have res: "p = Some ?b" "s' = LOG_0 TraceLevelInfo ''Exited DataSetByFeature::ConstructInputData'' s2"
    using run r fill by (simp_all add: ConstructInputData_unfold [OF av])
  have "sl' = map (\<lambda>k. Some (Some (Suc ?b + k))) [0..<unat cF]"
    using sl'(2,3) n by (intro nth_equalityI) simp_all
  then have "blocks s' ?b = Some (PtrArray (map (\<lambda>k. Some (Some (Suc ?b + k))) [0..<unat cF]))"
    using sl'(1) res(2) by simp
  moreover have "\<forall>k < unat cF. blocks s' (Suc ?b + k) \<noteq> None"
    using p_live n res(2) by simp
  moreover have "\<forall>a < ?b. blocks s' a = blocks s a"
    using p_old res(2) by simp
  moreover have "heap_ok s'"
    using p_none p_brk res(2) by (simp add: heap_ok_def)
  moreover have "brk s' = Suc ?b + unat cF" "avail s' = avail s" "calls s' = Suc (calls s) + unat cF"
    using p_brk p_avail p_calls r n res(2) by simp_all
  moreover have "trace s' = trace s @
           EvLog TraceLevelInfo ''Entered DataSetByFeature::ConstructInputData'' #
           EvAlloc ?b (unat cF) #
           map (\<lambda>k. EvAlloc (Suc ?b + k) (unat cI)) [0..<unat cF] @
           [EvLog TraceLevelInfo ''Exited DataSetByFeature::ConstructInputData'']"
    using p_trace r n res(2) by simp
  ultimately show ?thesis
    using res(1) by simp
qed

lemma ConstructInputData_None_iff:
  assumes ok: "heap_ok s" and cF: "0 < unat cF"
  shows "fst (ConstructInputData cF aF cI aB s) = None \<longleftrightarrow> (\<exists>k \<le> unat cF. \<not> avail s (calls s + k))"
proof
  assume none: "fst (ConstructInputData cF aF cI aB s) = None"
  show "\<exists>k \<le> unat cF. \<not> avail s (calls s + k)"
  proof (rule ccontr)
    assume "\<not> (\<exists>k \<le> unat cF. \<not> avail s (calls s + k))"
    then have "\<forall>j \<le> unat cF. avail s (calls s + j)" by blast
    then have "fst (ConstructInputData cF aF cI aB s) = Some (brk s)"
      using ConstructInputData_complete [OF ok cF _ surjective_pairing] by blast
    then show False using none by simp
  qed
next
  assume "\<exists>k \<le> unat cF. \<not> avail s (calls s + k)"
  then obtain k0 where k0: "k0 \<le> unat cF" "\<not> avail s (calls s + k0)" by blast
  define k where "k = (LEAST k. \<not> avail s (calls s + k))"
  have at: "\<not> avail s (calls s + k)"
    unfolding k_def using k0(2) by (rule LeastI)
  have "k \<le> k0"
    unfolding k_def using k0(2) by (rule Least_le)
  then have le: "k \<le> unat cF" using k0(1) by simp
  have before: "\<forall>j < k. avail s (calls s + j)"
    unfolding k_def using not_less_Least by blast
  show "fst (ConstructInputData cF aF cI aB s) = None"
    using ConstructInputData_rollback [OF ok cF le before at surjective_pairing] by simp
qed

subsection \<open>Allocations and frees in a trace\<close>

lemma allocated_append [simp]: "allocated (xs @ ys) = allocated xs @ allocated ys"
  by (induction xs rule: allocated.induct) simp_all

lemma freed_append [simp]: "freed (xs @ ys) = freed xs @ freed ys"
  by (induction xs rule: freed.induct) simp_all

lemma allocated_map_EvAlloc [simp]: "allocated (map (\<lambda>j. EvAlloc (f j) n) xs) = map f xs"
  by (induction xs) simp_all

lemma freed_map_EvAlloc [simp]: "freed (map (\<lambda>j. EvAlloc (f j) n) xs) = []"
  by (induction xs) simp_all

lemma allocated_map_EvFree [simp]: "allocated (map EvFree xs) = []"
  by (induction xs) simp_all

lemma freed_map_EvFree [simp]: "freed (map EvFree xs) = xs"
  by (induction xs) simp_all

lemma allocated_map_EvFree_comp [simp]: "allocated (map (EvFree \<circ> f) xs) = []"
  by (induction xs) simp_all

lemma freed_map_EvFree_comp [simp]: "freed (map (EvFree \<circ> f) xs) = map f xs"
  by (induction xs) simp_all

lemma column_failure_events_balance:
  "freed (column_failure_events cF cI b k) = rev (allocated (column_failure_events cF cI b k))"
  "length (allocated (column_failure_events cF cI b k)) = k"
  by (simp_all add: column_failure_events_def rev_map)

lemma ConstructInputData_None:
  assumes ok: "heap_ok s" and cF: "0 < unat cF"
    and run: "ConstructInputData cF aF cI aB s = (None, s')"
  obtains k where "k \<le> unat cF" and "\<forall>j < k. avail s (calls s + j)" and "\<not> avail s (calls s + k)"
    and "blocks s' = blocks s" and "trace s' = trace s @ column_failure_events cF cI (brk s) k"
    and "calls s' = calls s + k + 1" and "brk s' = brk s + k" and "avail s' = avail s"
proof -
  have "fst (ConstructInputData cF aF cI aB s) = None"
    using run by simp
  then obtain k0 where k0: "k0 \<le> unat cF" "\<not> avail s (calls s + k0)"
    using ConstructInputData_None_iff [OF ok cF] by blast
  define k where "k = (LEAST k. \<not> avail s (calls s + k))"
  have at: "\<not> avail s (calls s + k)"
    unfolding k_def using k0(2) by (rule LeastI)
  have "k \<le> k0"
    unfolding k_def using k0(2) by (rule Least_le)
  then have le: "k \<le> unat cF" using k0(1) by simp
  have before: "\<forall>j < k. avail s (calls s + j)"
    unfolding k_def using not_less_Least by blast
  show thesis
    using ConstructInputData_rollback [OF ok cF le before at run] that [OF le before at] by blast
qed

subsection \<open>\<^verbatim>\<open>ConstructResidualErrors\<close>, \<^verbatim>\<open>Destruct\<close> and \<^verbatim>\<open>Initialize\<close> on the heap\<close>

lemma ConstructResidualErrors_heap:
  assumes ok: "heap_ok s" and run: "ConstructResidualErrors cI aT aP lt s = (p, s')"
  shows "heap_ok s' \<and> avail s' = avail s \<and> brk s \<le> brk s' \<and>
         blocks s' = (case p of None \<Rightarrow> blocks s
                        | Some a \<Rightarrow> (blocks s)(a \<mapsto> FloatArray (unat cI * unat (GetVectorLength lt)))) \<and>
         (p \<noteq> None \<longrightarrow> p = Some (brk s))"
proof -
  have f0: "blocks s (brk s) = None" and f1: "blocks s (Suc (brk s)) = None"
    and f: "\<And>a. brk s \<le> a \<Longrightarrow> blocks s a = None"
    using ok by (simp_all add: heap_ok_def)
  have r1: "(blocks s)(brk s := None) = blocks s"
    using f0 by (auto simp: fun_eq_iff)
  have r2: "(blocks s)(brk s \<mapsto> x, Suc (brk s) := None) = (blocks s)(brk s \<mapsto> x)" for x
    using f1 by (auto simp: fun_eq_iff)
  show ?thesis
    using run f0 f1 f
    by (cases lt)
       (auto simp: residual_defs heap_ok_def unat_mult_no_overflow r1 r2
             split: prod.splits option.splits if_splits)
qed

lemma free_residual:
  assumes "owned this ps s"
  shows "free (m_aResidualErrors this) s =
           s\<lparr>blocks := (\<lambda>a. if Some a = m_aResidualErrors this then None else blocks s a),
             trace := trace s @ map EvFree (case m_aResidualErrors this of None \<Rightarrow> [] | Some r \<Rightarrow> [r])\<rparr>"
proof (cases "m_aResidualErrors this")
  case None
  then show ?thesis by simp
next
  case (Some r)
  then have "blocks s r \<noteq> None"
    using assms by (simp add: owned_def)
  then have "free (Some r) s = s\<lparr>blocks := (blocks s)(r := None), trace := trace s @ [EvFree r]\<rparr>"
    by (rule free_live)
  moreover have "(blocks s)(r := None) = (\<lambda>a. if Some a = Some r then None else blocks s a)"
    by (simp add: fun_eq_iff)
  ultimately show ?thesis
    using Some by simp
qed

lemma owned_LOG_0 [simp]: "owned this ps (LOG_0 l m s) = owned this ps s"
  by (simp add: owned_def cong: option.case_cong)

lemma mem_residual_list:
  "a \<in> set (case m of None \<Rightarrow> [] | Some r \<Rightarrow> [r]) \<longleftrightarrow> Some a = m"
  by (cases m) auto

lemma Initialize_unfold:
  "Initialize this cF aF cI aB aT aP lt s =
     (let s0 = LOG_0 TraceLevelInfo ''Entered DataSetByFeature::Initialize'' s;
          res = ConstructResidualErrors cI aT aP lt s0;
          col = ConstructInputData cF aF cI aB (snd res)
      in
      if cI = 0
      then (False, this\<lparr>m_cFeatures := cF\<rparr>,
            LOG_0 TraceLevelInfo ''Exited DataSetByFeature::Initialize'' s0)
      else if fst res = None
      then (True, this, LOG_0 TraceLevelWarning ''WARNING Exited DataSetByFeature::Initialize'' (snd res))
      else if cF = 0
      then (False,
            this\<lparr>m_aResidualErrors := fst res, m_cInstances := cI, m_cFeatures := cF\<rparr>,
            LOG_0 TraceLevelInfo ''Exited DataSetByFeature::Initialize'' (snd res))
      else if fst col = None
      then (True, this,
            LOG_0 TraceLevelWarning ''WARNING Exited DataSetByFeature::Initialize''
              (free (fst res) (snd col)))
      else (False,
            this\<lparr>m_aaInputData := fst col, m_aResidualErrors := fst res,
                 m_cInstances := cI, m_cFeatures := cF\<rparr>,
            LOG_0 TraceLevelInfo ''Exited DataSetByFeature::Initialize'' (snd col)))"
  by (auto simp: Initialize_def Let_def split: prod.splits option.splits)

lemma ConstructResidualErrors_trace:
  assumes run: "ConstructResidualErrors cI aT aP lt s = (p, s')"
  shows "\<exists>evs. trace s' = trace s @ evs"
  using run
  by (cases lt)
     (auto simp: residual_defs split: prod.splits option.splits if_splits)

subsection \<open>Evaluation on concrete inputs\<close>

lemma replicate_numeral_unfold:
  "replicate (numeral k) x = x # replicate (pred_numeral k) x"
  by (simp add: numeral_eq_Suc)

text \<open>The equations that evaluate a run on concrete inputs.\<close>

lemmas run_defs =
  Initialize_def ConstructInputData_def residual_defs IsMultiplyError_def
  fill_features.simps copy_cells.simps
  new_StorageDataType_ptr_def new_StorageDataType_def
  store_ptr_def load_ptr_def store_cell_def read_feature_def read_binned_def
  LOG_0_def InitializeResiduals_Func_def
  empty_heap_def zero_DataSetByFeature_def replicate_numeral_unfold

subsection \<open>What the copy loop writes\<close>

lemma store_cell_at:
  "blocks s p = Some (StorageArray cs) \<Longrightarrow> unat j < length cs \<Longrightarrow>
   store_cell p j v s = s\<lparr>blocks := (blocks s)(p \<mapsto> StorageArray (cs[unat j := Some v]))\<rparr>"
  by (simp add: store_cell_def)

lemma copy_cells_content:
  assumes "blocks s p = Some (StorageArray cs)" and "length cs = unat cI"
    and "unat j < unat cI" and "off + unat cI \<le> length aB"
  shows "copy_cells aB off p cI j s =
           s\<lparr>blocks := (blocks s)(p \<mapsto> StorageArray
                (take (unat j) cs @ map (\<lambda>k. Some (ucast (aB ! (off + k)))) [unat j..<unat cI]))\<rparr>"
  using assms
proof (induction "unat cI - unat j" arbitrary: j s cs)
  case 0
  then show ?case by simp
next
  case (Suc m)
  note at = Suc.prems(1) and len = Suc.prems(2) and lt = Suc.prems(3) and inb = Suc.prems(4)
  let ?v = "Some (ucast (aB ! (off + unat j)))"
  let ?cs2 = "cs[unat j := ?v]"
  let ?s2 = "s\<lparr>blocks := (blocks s)(p \<mapsto> StorageArray ?cs2)\<rparr>"
  have rb: "read_binned aB (off + unat j) s = (aB ! (off + unat j), s)"
    using lt inb by (simp add: read_binned_def)
  have sc: "store_cell p j (ucast (aB ! (off + unat j))) s = ?s2"
    using at len lt by (simp add: store_cell_at)
  have su: "unat (j + 1) = Suc (unat j)"
    by (rule unat_succ [OF lt])
  have tk: "take (Suc (unat j)) ?cs2 = take (unat j) cs @ [?v]"
    using len lt by (simp add: take_Suc_conv_app_nth)
  have up: "[unat j..<unat cI] = unat j # [Suc (unat j)..<unat cI]"
    using lt by (simp add: upt_conv_Cons)
  show ?case
  proof (cases "cI = j + 1")
    case True
    then have cI: "unat cI = Suc (unat j)"
      using su by simp
    have "copy_cells aB off p cI j s = ?s2"
      by (subst copy_cells_step) (simp add: Let_def rb sc True)
    moreover have "?cs2 = take (unat j) cs @ map (\<lambda>k. Some (ucast (aB ! (off + k)))) [unat j..<unat cI]"
      using tk len cI by simp
    ultimately show ?thesis
      by simp
  next
    case False
    have lt': "unat (j + 1) < unat cI"
      using False succ_eq_iff [OF lt] lt su by simp
    have m: "m = unat cI - unat (j + 1)"
      using Suc.hyps(2) su by simp
    have "copy_cells aB off p cI j s = copy_cells aB off p cI (j + 1) ?s2"
      by (subst copy_cells_step) (simp add: Let_def rb sc False)
    also have "\<dots> = ?s2\<lparr>blocks := (blocks ?s2)(p \<mapsto> StorageArray
                (take (unat (j + 1)) ?cs2 @
                 map (\<lambda>k. Some (ucast (aB ! (off + k)))) [unat (j + 1)..<unat cI]))\<rparr>"
      by (rule Suc.hyps(1) [OF m _ _ lt' inb]) (simp_all add: len)
    also have "\<dots> = s\<lparr>blocks := (blocks s)(p \<mapsto> StorageArray
                (take (unat j) cs @ map (\<lambda>k. Some (ucast (aB ! (off + k)))) [unat j..<unat cI]))\<rparr>"
      unfolding su tk up by simp
    finally show ?thesis .
  qed
qed

lemma ucast_roundtrip:
  fixes c :: IntEbmType
  assumes "LENGTH('w::len) < 64 \<longrightarrow> uint c < 2 ^ LENGTH('w)"
  shows "ucast (ucast c :: 'w word) = c"
proof -
  have lt: "unat c < 2 ^ LENGTH('w)"
  proof (cases "LENGTH('w) < 64")
    case True
    then have "uint c < 2 ^ LENGTH('w)"
      using assms by simp
    then have "int (unat c) < int (2 ^ LENGTH('w))"
      by simp
    then show ?thesis
      by (simp only: of_nat_less_iff)
  next
    case False
    have "unat c < 2 ^ 64"
      using unsigned_less [of c, where 'a = nat] by simp
    moreover have "(2::nat) ^ 64 \<le> 2 ^ LENGTH('w)"
      using False by (intro power_increasing) simp_all
    ultimately show ?thesis
      by linarith
  qed
  define w where "w = (ucast c :: 'w word)"
  have w: "unat w = unat c"
    unfolding w_def using lt by (simp add: unsigned_ucast_eq take_bit_nat_eq_self)
  have "unat c < 2 ^ 64"
    using unsigned_less [of c, where 'a = nat] by simp
  then have "take_bit 64 (unat w) = unat w"
    using w by (simp add: take_bit_nat_eq_self)
  moreover have "unat (ucast w :: IntEbmType) = take_bit 64 (unat w)"
    by (simp add: unsigned_ucast_eq)
  ultimately have "unat (ucast w :: IntEbmType) = unat c"
    using w by simp
  then have "ucast w = c"
    by (simp only: word_unat_eq_iff)
  then show ?thesis
    by (simp only: w_def)
qed

lemma fill_one_content:
  assumes av: "avail s (calls s)" and at: "blocks s aa = Some (PtrArray sl)"
    and i: "unat i < length sl" and ne: "aa \<noteq> brk s" and f: "unat i < length aF"
    and cI: "0 < unat cI"
    and inb: "unat (GetIndexFeatureData (aF ! unat i) * cI) + unat cI \<le> length aB"
  shows "blocks (fill_one aF cI aB aa i s) (brk s) = Some (StorageArray (narrowed_column aF cI aB (unat i)))
         \<and> ub (fill_one aF cI aB aa i s) = ub s"
proof -
  let ?b = "brk s"
  let ?cs = "replicate (unat cI) (None :: 'a word option)"
  define s1 where "s1 = snd (EbmMalloc new_StorageDataType cI s)"
  have s1: "s1 = s\<lparr>blocks := (blocks s)(?b \<mapsto> StorageArray ?cs), brk := Suc ?b,
                     calls := Suc (calls s), trace := trace s @ [EvAlloc ?b (unat cI)]\<rparr>"
    unfolding s1_def using av by (simp add: EbmMalloc_def new_StorageDataType_def)
  define s2 where "s2 = store_ptr aa i (Some ?b) s1"
  have s2: "s2 = s1\<lparr>blocks := (blocks s1)(aa \<mapsto> PtrArray (sl[unat i := Some (Some ?b)]))\<rparr>"
    unfolding s2_def using at i ne by (simp add: store_ptr_def s1)
  have rf: "read_feature aF i s2 = (aF ! unat i, s2)"
    using f by (simp add: read_feature_def)
  have b2: "blocks s2 ?b = Some (StorageArray ?cs)"
    using ne by (simp add: s2 s1)
  have ub2: "ub s2 = ub s"
    by (simp add: s2 s1)
  have pos: "unat (0 :: size_t) < unat cI"
    using cI by simp
  have cc: "copy_cells aB (unat (GetIndexFeatureData (aF ! unat i) * cI)) ?b cI 0 s2 =
              s2\<lparr>blocks := (blocks s2)(?b \<mapsto> StorageArray
                (take (unat (0 :: size_t)) ?cs @
                 map (\<lambda>k. Some (ucast (aB ! (unat (GetIndexFeatureData (aF ! unat i) * cI) + k))))
                   [unat (0 :: size_t)..<unat cI]))\<rparr>"
    by (rule copy_cells_content [OF b2 _ pos inb]) simp
  have "fill_one aF cI aB aa i s =
          copy_cells aB (unat (GetIndexFeatureData (aF ! unat i) * cI)) ?b cI 0 s2"
    using rf by (simp add: fill_one_def Let_def s1_def s2_def)
  then have "fill_one aF cI aB aa i s =
              s2\<lparr>blocks := (blocks s2)(?b \<mapsto> StorageArray (narrowed_column aF cI aB (unat i)))\<rparr>"
    unfolding cc by (simp add: narrowed_column_def)
  then show ?thesis
    using ub2 by simp
qed

lemma fill_features_content:
  assumes "heap_ok s" and "blocks s aa = Some (PtrArray sl)" and "length sl = unat cF"
    and "aa < brk s" and "unat i < unat cF" and "unat cF \<le> length aF" and "0 < unat cI"
    and "\<forall>k < unat cF. unat (GetIndexFeatureData (aF ! k) * cI) + unat cI \<le> length aB"
    and "fill_features aF cF cI aB aa i s = (True, i', s')"
  shows "(\<forall>k. unat i \<le> k \<and> k < unat cF \<longrightarrow>
            blocks s' (brk s + (k - unat i)) = Some (StorageArray (narrowed_column aF cI aB k)))
         \<and> ub s' = ub s"
  using assms
proof (induction "unat cF - unat i" arbitrary: i s sl)
  case 0
  then show ?case by simp
next
  case (Suc m)
  note ok = Suc.prems(1) and at = Suc.prems(2) and len = Suc.prems(3)
    and old = Suc.prems(4) and lt = Suc.prems(5) and fl = Suc.prems(6) and cI = Suc.prems(7)
    and inb = Suc.prems(8) and run = Suc.prems(9)
  have fresh: "\<And>a. brk s \<le> a \<Longrightarrow> blocks s a = None"
    using ok by (simp add: heap_ok_def)
  have av: "avail s (calls s)"
    using run by (auto simp: fill_features_step split: if_splits)
  let ?b = "brk s"
  let ?s4 = "fill_one aF cI aB aa i s"
  let ?sl4 = "sl[unat i := Some (Some ?b)]"
  note f = fill_one_fields [OF av, where aF = aF and cI = cI and aB = aB and aa = aa and i = i]
  have ne: "aa \<noteq> ?b"
    using old by simp
  have i_len: "unat i < length sl"
    using lt len by simp
  have i_f: "unat i < length aF"
    using lt fl by simp
  have one: "blocks ?s4 ?b = Some (StorageArray (narrowed_column aF cI aB (unat i)))"
    and ub4: "ub ?s4 = ub s"
    using fill_one_content [OF av at i_len ne i_f cI] inb lt by simp_all
  have su: "unat (i + 1) = Suc (unat i)"
    by (rule unat_succ [OF lt])
  show ?case
  proof (cases "cF = i + 1")
    case True
    then have res: "s' = ?s4"
      using run av by (simp add: fill_features_step)
    have "unat cF = Suc (unat i)"
      using True su by simp
    then have "blocks ?s4 (?b + (k - unat i)) = Some (StorageArray (narrowed_column aF cI aB k))"
      if "unat i \<le> k \<and> k < unat cF" for k
    proof -
      have "k = unat i"
        using that \<open>unat cF = Suc (unat i)\<close> by simp
      then show ?thesis
        using one by simp
    qed
    then show ?thesis
      unfolding res using ub4 by simp
  next
    case False
    then have rec: "fill_features aF cF cI aB aa (i + 1) ?s4 = (True, i', s')"
      using run av by (simp add: fill_features_step)
    have lt': "unat (i + 1) < unat cF"
      using False succ_eq_iff [OF lt] lt su by simp
    have m: "m = unat cF - unat (i + 1)"
      using Suc.hyps(2) su by simp
    have ok4: "heap_ok ?s4"
      unfolding heap_ok_def using f(1) f(6) fresh ne old by simp
    have at4: "blocks ?s4 aa = Some (PtrArray ?sl4)"
      by (rule f(7) [OF at i_len ne])
    have len4: "length ?sl4 = unat cF"
      using len by simp
    have old4: "aa < brk ?s4"
      using old f(1) by simp
    have IH: "(\<forall>k. unat (i + 1) \<le> k \<and> k < unat cF \<longrightarrow>
                 blocks s' (brk ?s4 + (k - unat (i + 1))) = Some (StorageArray (narrowed_column aF cI aB k)))
              \<and> ub s' = ub ?s4"
      by (rule Suc.hyps(1) [OF m ok4 at4 len4 old4 lt' fl cI inb rec])
    have post: "fill_post cF cI aa ?sl4 (i + 1) ?s4 True i' s'"
      by (rule fill_features_structure [OF ok4 at4 len4 old4 lt' rec])
    have keep: "blocks s' ?b = blocks ?s4 ?b"
      using post ne f(1) by (simp add: fill_post_def)
    have "blocks s' (?b + (k - unat i)) = Some (StorageArray (narrowed_column aF cI aB k))"
      if k: "unat i \<le> k \<and> k < unat cF" for k
    proof (cases "k = unat i")
      case True
      then show ?thesis using keep one by simp
    next
      case False
      then have "unat (i + 1) \<le> k \<and> k < unat cF"
        using k su by simp
      then have "blocks s' (brk ?s4 + (k - unat (i + 1))) = Some (StorageArray (narrowed_column aF cI aB k))"
        using IH by blast
      moreover have "Suc ?b + (k - Suc (unat i)) = ?b + (k - unat i)"
        using False k by arith
      ultimately show ?thesis by (simp only: su f(1))
    qed
    then show ?thesis
      using IH ub4 by simp
  qed
qed

lemma uint_of_nonneg_sint:
  fixes w :: "'a::len word"
  assumes "0 \<le> sint w"
  shows "uint w = sint w"
proof -
  have "sint w < 2 ^ (LENGTH('a) - 1)"
    by (rule sint_lt)
  also have "(2::int) ^ (LENGTH('a) - 1) \<le> 2 ^ LENGTH('a)"
    by (intro power_increasing) simp_all
  finally have "sint w < 2 ^ LENGTH('a)" .
  then show ?thesis
    using assms by (simp add: uint_sint take_bit_int_eq_self)
qed

lemma asserted_legal_roundtrip:
  assumes "asserted_legal TYPE('w::len) pFeature data"
  shows "ucast (ucast data :: 'w word) = data"
proof -
  have "uint data = sint data"
    using assms by (simp add: asserted_legal_def uint_of_nonneg_sint)
  then have "uint data < 2 ^ LENGTH('w)"
    using assms by (simp add: asserted_legal_def IsNumberConvertable_def)
  then show ?thesis
    by (intro ucast_roundtrip) simp
qed

lemma asserted_legal_of_range:
  assumes "0 \<le> sint data" and "unat data < unat (GetCountBins pFeature)"
    and "unat (GetCountBins pFeature) \<le> 2 ^ LENGTH('w::len)"
  shows "asserted_legal TYPE('w) pFeature data"
proof -
  have "sint data = uint data"
    using assms(1) by (simp add: uint_of_nonneg_sint)
  moreover have "unat data < 2 ^ LENGTH('w)"
    using assms(2,3) by linarith
  then have "int (unat data) < int (2 ^ LENGTH('w))"
    by (simp only: of_nat_less_iff)
  then have "uint data < 2 ^ LENGTH('w)"
    by simp
  moreover have "sint data < 2 ^ 64"
    using sint_lt [of data] by simp
  ultimately show ?thesis
    using assms(1,2) by (simp add: asserted_legal_def IsNumberConvertable_def)
qed

subsection \<open>The residual array is not tested for \<^verbatim>\<open>nullptr\<close>\<close>

text \<open>
  Whatever the task, when the request for the residual array is refused and
  the call reaches a kernel (on the multiclass path: when the scratch vector is
  then allocated), the kernel is called with \<^verbatim>\<open>aResidualErrors == nullptr\<close>.
\<close>

lemma null_residual_is_dispatched:
  assumes "\<not> IsMultiplyError cI (GetVectorLength lt)" and "\<not> avail s (calls s)"
    and "avail s (Suc (calls s))"
  shows "\<exists>k v. EvDispatch k cI aT aP None lt v
                 \<in> set (events_since s (snd (ConstructResidualErrors cI aT aP lt s)))"
  using assms
  by (cases lt) (auto simp: residual_defs events_since_def)

section \<open>The dataset against its specification\<close>

subsection \<open>The status that \<^verbatim>\<open>Initialize\<close> returns\<close>

text \<open>
  C10. \<^verbatim>\<open>Initialize\<close> returns \<^verbatim>\<open>false\<close> on success and \<^verbatim>\<open>true\<close> on failure, for
  every input. It returns \<^verbatim>\<open>false\<close> exactly when the dataset is empty or both
  builders it called returned an array, and then the fields are committed; it
  returns \<^verbatim>\<open>true\<close> exactly when a builder returned \<^verbatim>\<open>nullptr\<close>, and then the
  object is as it was. A caller that reads \<^verbatim>\<open>true\<close> as success misreads every
  outcome.
\<close>

theorem Initialize_status_polarity:
  assumes "Initialize this cF aF cI aB aT aP lt s = (r, this', s')"
  shows "(r = False \<longleftrightarrow>
            cI = 0 \<or>
            (fst (ConstructResidualErrors cI aT aP lt
                    (LOG_0 TraceLevelInfo ''Entered DataSetByFeature::Initialize'' s)) \<noteq> None \<and>
             (cF = 0 \<or>
              fst (ConstructInputData cF aF cI aB
                     (snd (ConstructResidualErrors cI aT aP lt
                             (LOG_0 TraceLevelInfo ''Entered DataSetByFeature::Initialize'' s)))) \<noteq> None)))
       \<and> (r = False \<longrightarrow>
            m_cFeatures this' = cF \<and>
            (cI \<noteq> 0 \<longrightarrow> m_cInstances this' = cI \<and> m_aResidualErrors this' \<noteq> None \<and>
                          (cF \<noteq> 0 \<longrightarrow> m_aaInputData this' \<noteq> None)))
       \<and> (r = True \<longrightarrow> this' = this)"
  using assms
  by (auto simp: Initialize_def Let_def split: prod.splits option.splits if_splits)

theorem Initialize_status_polarity_witness:
  "fst (Initialize zero_DataSetByFeature 0 [] 1 [] (Some 100) (Some 101) Regression
          (empty_heap (\<lambda>n. False) :: 8 word heap)) = True
   \<and> fst (ConstructResidualErrors 1 (Some 100) (Some 101) Regression
            (LOG_0 TraceLevelInfo ''Entered DataSetByFeature::Initialize''
               (empty_heap (\<lambda>n. False) :: 8 word heap))) = None
   \<and> fst (snd (Initialize zero_DataSetByFeature 0 [] 1 [] (Some 100) (Some 101) Regression
                 (empty_heap (\<lambda>n. False) :: 8 word heap))) = zero_DataSetByFeature"
proof -
  let ?run = "Initialize zero_DataSetByFeature 0 [] 1 [] (Some 100) (Some 101) Regression
                (empty_heap (\<lambda>n. False) :: 8 word heap)"
  obtain this' s' where run: "?run = (True, this', s')"
    by (simp add: Initialize_def residual_defs IsMultiplyError_def empty_heap_def)
  show ?thesis
    using Initialize_status_polarity [OF run] run by simp
qed

subsection \<open>The empty dataset\<close>

text \<open>
  C6. Called with \<^verbatim>\<open>cInstances == 0\<close> on an object in its zero state, for any
  feature count and any learning task, \<^verbatim>\<open>Initialize\<close> succeeds (it returns
  \<^verbatim>\<open>false\<close>), asks the allocator for nothing, leaves the residuals and the
  columns null and the instance count 0, records the feature count, and a
  following \<^verbatim>\<open>Destruct\<close> frees nothing: it only logs its entry and its exit.
\<close>

theorem Initialize_empty_dataset:
  assumes "m_aResidualErrors this = None" and "m_aaInputData this = None"
    and "m_cInstances this = 0"
  shows "case Initialize this cF aF 0 aB aT aP lt s of
           (r, this', s') \<Rightarrow>
             r = False \<and>
             m_aResidualErrors this' = None \<and> m_aaInputData this' = None \<and>
             m_cInstances this' = 0 \<and> m_cFeatures this' = cF \<and>
             filter is_request (events_since s s') = [] \<and>
             blocks s' = blocks s \<and> brk s' = brk s \<and> calls s' = calls s \<and> ub s' = ub s \<and>
             blocks (Destruct this' s') = blocks s' \<and>
             ub (Destruct this' s') = ub s' \<and>
             events_since s' (Destruct this' s') =
               [EvLog TraceLevelInfo ''Entered DataSetByFeature::Destruct'',
                EvLog TraceLevelInfo ''Exited DataSetByFeature::Destruct'']"
  using assms
  by (simp add: Initialize_def Destruct_def Let_def events_since_def)

theorem Initialize_empty_dataset_witness:
  "Initialize zero_DataSetByFeature 2 [] 0 [] None None BinaryClassification
     (empty_heap (\<lambda>n. True) :: 8 word heap) =
   (False, zero_DataSetByFeature\<lparr>m_cFeatures := 2\<rparr>,
    (empty_heap (\<lambda>n. True))\<lparr>trace :=
       [EvLog TraceLevelInfo ''Entered DataSetByFeature::Initialize'',
        EvLog TraceLevelInfo ''Exited DataSetByFeature::Initialize'']\<rparr>)
   \<and> blocks (Destruct (zero_DataSetByFeature\<lparr>m_cFeatures := 2\<rparr>)
        (snd (snd (Initialize zero_DataSetByFeature 2 [] 0 [] None None BinaryClassification
                     (empty_heap (\<lambda>n. True) :: 8 word heap))))) = (\<lambda>a. None)"
proof -
  have z: "m_aResidualErrors zero_DataSetByFeature = None"
      "m_aaInputData zero_DataSetByFeature = None"
      "m_cInstances zero_DataSetByFeature = 0"
    by (simp_all add: zero_DataSetByFeature_def)
  have run: "Initialize zero_DataSetByFeature 2 [] 0 [] None None BinaryClassification
     (empty_heap (\<lambda>n. True) :: 8 word heap) =
   (False, zero_DataSetByFeature\<lparr>m_cFeatures := 2\<rparr>,
    (empty_heap (\<lambda>n. True))\<lparr>trace :=
       [EvLog TraceLevelInfo ''Entered DataSetByFeature::Initialize'',
        EvLog TraceLevelInfo ''Exited DataSetByFeature::Initialize'']\<rparr>)"
    by (simp add: Initialize_def LOG_0_def empty_heap_def)
  show ?thesis
    using Initialize_empty_dataset [OF z, where cF = 2 and aF = "[]" and aB = "[]"
             and aT = None and aP = None and lt = BinaryClassification
             and s = "empty_heap (\<lambda>n. True) :: 8 word heap"] run
    by (simp add: empty_heap_def)
qed

subsection \<open>The capacity guard\<close>

text \<open>
  C3. When the product of the instance count and the vector length of the
  task overflows \<^verbatim>\<open>size_t\<close>, \<^verbatim>\<open>ConstructResidualErrors\<close> returns \<^verbatim>\<open>nullptr\<close>
  after logging the \<^verbatim>\<open>IsMultiplyError\<close> warning (the capacity error) and
  nothing else, so \<^verbatim>\<open>Initialize\<close> fails with the object untouched and not one
  allocation request made. When the product does not overflow the guard does
  not trigger: the warning is not logged and the first request to the
  allocator is for exactly \<open>cInstances * cVectorLength\<close> elements. An
  overflowing product implies \<open>cInstances \<ge> 1\<close>, so that hypothesis of the
  claim is not needed.
\<close>

theorem capacity_guard:
  "(IsMultiplyError cI (GetVectorLength lt) \<longleftrightarrow> 2 ^ 64 \<le> unat cI * unat (GetVectorLength lt))
   \<and> (2 ^ 64 \<le> unat cI * unat (GetVectorLength lt) \<longrightarrow>
        ConstructResidualErrors cI aT aP lt s =
          (None,
           s\<lparr>trace := trace s @
              [EvLog TraceLevelInfo ''Entered DataSetByFeature::ConstructResidualErrors'',
               EvLog TraceLevelWarning
                 ''WARNING DataSetByFeature::ConstructResidualErrors IsMultiplyError(cInstances, cVectorLength)'']\<rparr>)
        \<and> (case Initialize this cF aF cI aB aT aP lt s of
             (r, this', s') \<Rightarrow>
               r = True \<and> this' = this \<and> filter is_request (events_since s s') = [] \<and>
               blocks s' = blocks s \<and> brk s' = brk s \<and> calls s' = calls s))
   \<and> (unat cI * unat (GetVectorLength lt) < 2 ^ 64 \<longrightarrow>
        (case ConstructResidualErrors cI aT aP lt s of
           (p, s') \<Rightarrow>
             EvLog TraceLevelWarning
               ''WARNING DataSetByFeature::ConstructResidualErrors IsMultiplyError(cInstances, cVectorLength)''
               \<notin> set (events_since s s') \<and>
             hd (filter is_request (events_since s s')) =
               (if avail s (calls s) then EvAlloc (brk s) (unat cI * unat (GetVectorLength lt))
                else EvAllocFail (unat cI * unat (GetVectorLength lt)))))"
proof (intro conjI impI)
  show "IsMultiplyError cI (GetVectorLength lt) \<longleftrightarrow> 2 ^ 64 \<le> unat cI * unat (GetVectorLength lt)"
    by (rule IsMultiplyError_iff_unat)
next
  assume "2 ^ 64 \<le> unat cI * unat (GetVectorLength lt)"
  then have ov: "IsMultiplyError cI (GetVectorLength lt)"
    by (simp add: IsMultiplyError_iff_unat)
  then show "ConstructResidualErrors cI aT aP lt s =
          (None,
           s\<lparr>trace := trace s @
              [EvLog TraceLevelInfo ''Entered DataSetByFeature::ConstructResidualErrors'',
               EvLog TraceLevelWarning
                 ''WARNING DataSetByFeature::ConstructResidualErrors IsMultiplyError(cInstances, cVectorLength)'']\<rparr>)"
    by (simp add: ConstructResidualErrors_def Let_def LOG_0_def)
  have "cI \<noteq> 0"
    using ov by (auto simp: IsMultiplyError_def)
  with ov show "case Initialize this cF aF cI aB aT aP lt s of
             (r, this', s') \<Rightarrow>
               r = True \<and> this' = this \<and> filter is_request (events_since s s') = [] \<and>
               blocks s' = blocks s \<and> brk s' = brk s \<and> calls s' = calls s"
    by (simp add: Initialize_def ConstructResidualErrors_def Let_def events_since_def)
next
  assume "unat cI * unat (GetVectorLength lt) < 2 ^ 64"
  then have ov: "\<not> IsMultiplyError cI (GetVectorLength lt)"
    by (simp add: IsMultiplyError_iff_unat)
  then show "case ConstructResidualErrors cI aT aP lt s of
           (p, s') \<Rightarrow>
             EvLog TraceLevelWarning
               ''WARNING DataSetByFeature::ConstructResidualErrors IsMultiplyError(cInstances, cVectorLength)''
               \<notin> set (events_since s s') \<and>
             hd (filter is_request (events_since s s')) =
               (if avail s (calls s) then EvAlloc (brk s) (unat cI * unat (GetVectorLength lt))
                else EvAllocFail (unat cI * unat (GetVectorLength lt)))"
    by (cases lt)
       (auto simp: residual_defs events_since_def unat_mult_no_overflow
             split: prod.splits option.splits)
qed

theorem capacity_guard_witness:
  "ConstructResidualErrors (2 ^ 63) None None (MulticlassClassification 3)
     (empty_heap (\<lambda>n. True) :: 8 word heap) =
   (None,
    (empty_heap (\<lambda>n. True))\<lparr>trace :=
       [EvLog TraceLevelInfo ''Entered DataSetByFeature::ConstructResidualErrors'',
        EvLog TraceLevelWarning
          ''WARNING DataSetByFeature::ConstructResidualErrors IsMultiplyError(cInstances, cVectorLength)'']\<rparr>)
   \<and> hd (filter is_request
            (events_since (empty_heap (\<lambda>n. True) :: 8 word heap)
               (snd (ConstructResidualErrors 2 None None (MulticlassClassification 3)
                       (empty_heap (\<lambda>n. True) :: 8 word heap))))) = EvAlloc 0 6"
proof -
  have big: "(2::nat) ^ 64 \<le> unat (2 ^ 63 :: size_t) * unat (GetVectorLength (MulticlassClassification 3))"
    by simp
  have small: "unat (2 :: size_t) * unat (GetVectorLength (MulticlassClassification 3)) < 2 ^ 64"
    by simp
  show ?thesis
    using capacity_guard [where cI = "2 ^ 63" and lt = "MulticlassClassification 3"
             and aT = None and aP = None and s = "empty_heap (\<lambda>n. True) :: 8 word heap"]
          capacity_guard [where cI = 2 and lt = "MulticlassClassification 3"
             and aT = None and aP = None and s = "empty_heap (\<lambda>n. True) :: 8 word heap"]
          big small
    by (simp add: empty_heap_def split: prod.splits)
qed

subsection \<open>A failed allocation of the residual array\<close>

text \<open>
  C1. The claim is that when the allocation of the residual array fails,
  \<^verbatim>\<open>ConstructResidualErrors\<close> reports the failure without dispatching work on
  the unallocated buffer. The source does not test the result of
  \<^verbatim>\<open>EbmMalloc<FloatEbmType, false>(cElements)\<close>: it goes on to the kernel with
  \<^verbatim>\<open>aResidualErrors == nullptr\<close>. Here is the run for one instance, a regression
  task and an allocator that refuses every request: the trace holds the
  dispatch of the regression kernel on the null buffer, between the failed
  request and the exit. The other tasks fare the same
  (\<open>null_residual_is_dispatched\<close>), while every other allocation of the file
  is tested before use.
\<close>

theorem residual_allocation_failure_dispatches_on_null:
  "ConstructResidualErrors 1 (Some 100) (Some 101) Regression
     (empty_heap (\<lambda>n. False) :: 8 word heap) =
   (None,
    \<lparr>blocks = (\<lambda>a. None), brk = 0, calls = 1, avail = (\<lambda>n. False),
     trace =
       [EvLog TraceLevelInfo ''Entered DataSetByFeature::ConstructResidualErrors'',
        EvAllocFail 1,
        EvDispatch Kernel_Regression 1 (Some 100) (Some 101) None Regression None,
        EvLog TraceLevelInfo ''Exited DataSetByFeature::ConstructResidualErrors''],
     ub = False\<rparr>)"
  by (simp add: residual_defs IsMultiplyError_def empty_heap_def LOG_0_def
        InitializeResiduals_Func_def)

subsection \<open>The length of the residual array and the kernel\<close>

text \<open>
  C7. Whenever \<^verbatim>\<open>ConstructResidualErrors\<close> returns an array, that array is a
  live block of \<open>cInstances * cVectorLength\<close> elements: \<open>cInstances\<close> for
  regression and for binary classification, \<open>cInstances * K\<close> for multiclass
  classification with \<open>K\<close> classes. Exactly one kernel was dispatched, on that
  array: the regression kernel for regression, the fixed 2-class kernel
  without scratch for binary classification, the dynamic kernel with the
  scratch vector for multiclass classification.
\<close>

theorem residual_length_and_kernel:
  assumes "ConstructResidualErrors cI aT aP lt s = (Some a, s')"
  shows "blocks s' a =
           Some (FloatArray (case lt of Regression \<Rightarrow> unat cI
                                      | BinaryClassification \<Rightarrow> unat cI
                                      | MulticlassClassification K \<Rightarrow> unat cI * unat K))
         \<and> filter is_dispatch (events_since s s') =
             [EvDispatch (case lt of Regression \<Rightarrow> Kernel_Regression
                                   | BinaryClassification \<Rightarrow> Kernel_2
                                   | MulticlassClassification K \<Rightarrow> Kernel_DynamicClassification)
                cI aT aP (Some a) lt
                (case lt of MulticlassClassification K \<Rightarrow> Some (Suc a) | _ \<Rightarrow> None)]"
  using assms
  by (cases lt)
     (auto simp: residual_defs events_since_def unat_mult_no_overflow
           split: prod.splits option.splits if_splits)

theorem residual_length_and_kernel_witness:
  "fst (ConstructResidualErrors 2 (Some 100) (Some 101) (MulticlassClassification 3)
          (empty_heap (\<lambda>n. True) :: 8 word heap)) = Some 0
   \<and> blocks (snd (ConstructResidualErrors 2 (Some 100) (Some 101) (MulticlassClassification 3)
                    (empty_heap (\<lambda>n. True) :: 8 word heap))) 0 = Some (FloatArray 6)
   \<and> filter is_dispatch
        (events_since (empty_heap (\<lambda>n. True) :: 8 word heap)
           (snd (ConstructResidualErrors 2 (Some 100) (Some 101) (MulticlassClassification 3)
                   (empty_heap (\<lambda>n. True) :: 8 word heap)))) =
       [EvDispatch Kernel_DynamicClassification 2 (Some 100) (Some 101) (Some 0)
          (MulticlassClassification 3) (Some 1)]"
proof -
  let ?run = "ConstructResidualErrors 2 (Some 100) (Some 101) (MulticlassClassification 3)
                (empty_heap (\<lambda>n. True) :: 8 word heap)"
  obtain s' where run: "?run = (Some 0, s')"
    by (simp add: residual_defs IsMultiplyError_def empty_heap_def)
  show ?thesis
    using residual_length_and_kernel [OF run] run by simp
qed

subsection \<open>The scratch vector of the multiclass path\<close>

text \<open>
  C8. On the multiclass path every block allocated during the call, other
  than the array that is returned, has been freed when the call returns: the
  scratch vector never outlives the call, and the heap after the call is the
  heap before it plus the returned array, if any. Allocations and frees
  balance, up to the returned array. When the allocation of the scratch
  vector fails, the call returns \<^verbatim>\<open>nullptr\<close> after logging the
  \<^verbatim>\<open>nullptr == aTempFloatVector\<close> warning (the allocation error), and the
  residual array, if it was allocated, has been released.
\<close>

theorem scratch_vector_is_released:
  assumes run: "ConstructResidualErrors cI aT aP (MulticlassClassification K) s = (p, s')"
    and ok: "heap_ok s"
  shows "(\<forall>t n. EvAlloc t n \<in> set (events_since s s') \<and> Some t \<noteq> p \<longrightarrow>
            EvFree t \<in> set (events_since s s') \<and> blocks s' t = None)
       \<and> blocks s' =
            (case p of None \<Rightarrow> blocks s
                     | Some a \<Rightarrow> (blocks s)(a \<mapsto> FloatArray (unat cI * unat K)))
       \<and> length (filter is_alloc (events_since s s')) =
            length (filter is_free (events_since s s')) + (if p = None then 0 else 1)
       \<and> (\<not> IsMultiplyError cI K \<and> \<not> avail s (Suc (calls s)) \<longrightarrow>
            p = None \<and>
            EvLog TraceLevelWarning
              ''WARNING DataSetByFeature::ConstructResidualErrors nullptr == aTempFloatVector''
              \<in> set (events_since s s'))"
proof -
  have f0: "blocks s (brk s) = None" and f1: "blocks s (Suc (brk s)) = None"
    using ok by (simp_all add: heap_ok_def)
  have r1: "(blocks s)(brk s := None) = blocks s"
    using f0 by (auto simp: fun_eq_iff)
  have r2: "(blocks s)(brk s \<mapsto> x, Suc (brk s) := None) = (blocks s)(brk s \<mapsto> x)" for x
    using f1 by (auto simp: fun_eq_iff)
  show ?thesis
    using run f0 f1
    by (auto simp: residual_defs events_since_def unat_mult_no_overflow r1 r2
             split: prod.splits option.splits if_splits)
qed

theorem scratch_vector_is_released_witness:
  "heap_ok (empty_heap (\<lambda>n. n = 0) :: 8 word heap) \<and>
   fst (ConstructResidualErrors 2 (Some 100) (Some 101) (MulticlassClassification 3)
          (empty_heap (\<lambda>n. n = 0) :: 8 word heap)) = None \<and>
   blocks (snd (ConstructResidualErrors 2 (Some 100) (Some 101) (MulticlassClassification 3)
          (empty_heap (\<lambda>n. n = 0) :: 8 word heap))) = (\<lambda>a. None) \<and>
   EvLog TraceLevelWarning ''WARNING DataSetByFeature::ConstructResidualErrors nullptr == aTempFloatVector''
     \<in> set (events_since (empty_heap (\<lambda>n. n = 0) :: 8 word heap)
               (snd (ConstructResidualErrors 2 (Some 100) (Some 101) (MulticlassClassification 3)
                  (empty_heap (\<lambda>n. n = 0) :: 8 word heap))))"
proof -
  let ?s = "empty_heap (\<lambda>n. n = 0) :: 8 word heap"
  let ?run = "ConstructResidualErrors 2 (Some 100) (Some 101) (MulticlassClassification 3) ?s"
  have h: "heap_ok ?s" by simp
  obtain s' where run: "?run = (None, s')"
    by (simp add: residual_defs IsMultiplyError_def empty_heap_def)
  have no: "\<not> IsMultiplyError 2 3 \<and> \<not> avail ?s (Suc (calls ?s))"
    by (simp add: IsMultiplyError_def empty_heap_def)
  show ?thesis
    using scratch_vector_is_released [OF run h] no h run by (simp add: empty_heap_def)
qed

subsection \<open>Rollback in \<^verbatim>\<open>ConstructInputData\<close>\<close>

text \<open>
  C5. Let the \<open>k\<close>-th allocation request of \<^verbatim>\<open>ConstructInputData\<close> be the
  first that fails: \<open>k = 0\<close> is the outer array, \<open>k \<ge> 1\<close> the array of the
  \<open>k\<close>-th feature. Then the builder returns \<^verbatim>\<open>nullptr\<close>, the heap is exactly
  what it was before the call, and the trace of the call is
  \<open>column_failure_events\<close>: the \<open>k\<close> successful allocations, the failed
  request, the warning, then one free for each per-feature array allocated so
  far, last allocated first, and the free of the outer array. The blocks
  freed are the blocks allocated, each once. Conversely, when the builder
  returns an array no request failed and every one of its \<open>cFeatures\<close> slots
  points to a live per-feature array: a partial outer array is never
  returned.
\<close>

theorem column_builder_rollback:
  assumes "heap_ok s" and "cF \<noteq> 0"
  shows "(\<forall>k \<le> unat cF. (\<forall>j < k. avail s (calls s + j)) \<and> \<not> avail s (calls s + k) \<longrightarrow>
           (case ConstructInputData cF aF cI aB s of
              (p, s') \<Rightarrow>
                p = None \<and> blocks s' = blocks s \<and>
                events_since s s' = column_failure_events cF cI (brk s) k \<and>
                freed (events_since s s') = rev (allocated (events_since s s')) \<and>
                length (allocated (events_since s s')) = k))
       \<and> (\<forall>aa s'. ConstructInputData cF aF cI aB s = (Some aa, s') \<longrightarrow>
            (\<forall>j \<le> unat cF. avail s (calls s + j)) \<and>
            blocks s' aa = Some (PtrArray (map (\<lambda>k. Some (Some (Suc aa + k))) [0..<unat cF])) \<and>
            (\<forall>k < unat cF. blocks s' (Suc aa + k) \<noteq> None))"
proof -
  have cF: "0 < unat cF"
    using assms(2) by (simp add: unat_gt_0)
  have fail: "case ConstructInputData cF aF cI aB s of
              (p, s') \<Rightarrow>
                p = None \<and> blocks s' = blocks s \<and>
                events_since s s' = column_failure_events cF cI (brk s) k \<and>
                freed (events_since s s') = rev (allocated (events_since s s')) \<and>
                length (allocated (events_since s s')) = k"
    if k: "k \<le> unat cF" and fp: "(\<forall>j < k. avail s (calls s + j)) \<and> \<not> avail s (calls s + k)" for k
  proof -
    obtain p s' where run: "ConstructInputData cF aF cI aB s = (p, s')"
      by (cases "ConstructInputData cF aF cI aB s")
    have rb: "p = None \<and> blocks s' = blocks s \<and>
         trace s' = trace s @ column_failure_events cF cI (brk s) k \<and>
         calls s' = calls s + k + 1 \<and> brk s' = brk s + k \<and> avail s' = avail s"
      using fp by (intro ConstructInputData_rollback [OF assms(1) cF k _ _ run]) simp_all
    then have ev: "events_since s s' = column_failure_events cF cI (brk s) k"
      by simp
    show ?thesis
      unfolding run using rb ev by (simp add: column_failure_events_balance)
  qed
  have complete: "(\<forall>j \<le> unat cF. avail s (calls s + j)) \<and>
            blocks s' aa = Some (PtrArray (map (\<lambda>k. Some (Some (Suc aa + k))) [0..<unat cF])) \<and>
            (\<forall>k < unat cF. blocks s' (Suc aa + k) \<noteq> None)"
    if run: "ConstructInputData cF aF cI aB s = (Some aa, s')" for aa s'
  proof -
    have "fst (ConstructInputData cF aF cI aB s) \<noteq> None"
      using run by simp
    then have all: "\<forall>j \<le> unat cF. avail s (calls s + j)"
      using ConstructInputData_None_iff [OF assms(1) cF, where aF = aF and cI = cI and aB = aB]
      by auto
    show ?thesis
      using ConstructInputData_complete [OF assms(1) cF all run] all by simp
  qed
  show ?thesis
    using fail complete by blast
qed

theorem column_builder_rollback_witness:
  "heap_ok (empty_heap (\<lambda>n. n \<noteq> 2) :: 8 word heap) \<and> (3 :: size_t) \<noteq> 0 \<and>
   fst (ConstructInputData 3
          [\<lparr>GetIndexFeatureData = 0, GetCountBins = 4\<rparr>,
           \<lparr>GetIndexFeatureData = 1, GetCountBins = 4\<rparr>,
           \<lparr>GetIndexFeatureData = 0, GetCountBins = 4\<rparr>] 2 [0, 3, 1, 2]
          (empty_heap (\<lambda>n. n \<noteq> 2) :: 8 word heap)) = None \<and>
   blocks (snd (ConstructInputData 3
          [\<lparr>GetIndexFeatureData = 0, GetCountBins = 4\<rparr>,
           \<lparr>GetIndexFeatureData = 1, GetCountBins = 4\<rparr>,
           \<lparr>GetIndexFeatureData = 0, GetCountBins = 4\<rparr>] 2 [0, 3, 1, 2]
          (empty_heap (\<lambda>n. n \<noteq> 2) :: 8 word heap))) = (\<lambda>a. None) \<and>
   events_since (empty_heap (\<lambda>n. n \<noteq> 2) :: 8 word heap)
     (snd (ConstructInputData 3
          [\<lparr>GetIndexFeatureData = 0, GetCountBins = 4\<rparr>,
           \<lparr>GetIndexFeatureData = 1, GetCountBins = 4\<rparr>,
           \<lparr>GetIndexFeatureData = 0, GetCountBins = 4\<rparr>] 2 [0, 3, 1, 2]
          (empty_heap (\<lambda>n. n \<noteq> 2) :: 8 word heap))) =
     [EvLog TraceLevelInfo ''Entered DataSetByFeature::ConstructInputData'',
      EvAlloc 0 3, EvAlloc 1 2, EvAllocFail 2,
      EvLog TraceLevelWarning ''WARNING DataSetByFeature::ConstructInputData nullptr == pInputDataTo'',
      EvFree 1, EvFree 0]"
proof -
  let ?s = "empty_heap (\<lambda>n. n \<noteq> 2) :: 8 word heap"
  let ?aF = "[\<lparr>GetIndexFeatureData = 0, GetCountBins = 4\<rparr>,
           \<lparr>GetIndexFeatureData = 1, GetCountBins = 4\<rparr>,
           \<lparr>GetIndexFeatureData = 0, GetCountBins = 4\<rparr>]"
  have h: "heap_ok ?s" by simp
  have n: "(3 :: size_t) \<noteq> 0" by simp
  have le: "(2::nat) \<le> unat (3 :: size_t)"
    by simp
  have fp: "(\<forall>j < 2. avail ?s (calls ?s + j)) \<and> \<not> avail ?s (calls ?s + 2)"
    by (simp add: empty_heap_def)
  have "case ConstructInputData 3 ?aF 2 [0, 3, 1, 2] ?s of
          (p, s') \<Rightarrow>
            p = None \<and> blocks s' = blocks ?s \<and>
            events_since ?s s' = column_failure_events 3 2 (brk ?s) 2 \<and>
            freed (events_since ?s s') = rev (allocated (events_since ?s s')) \<and>
            length (allocated (events_since ?s s')) = 2"
    by (rule column_builder_rollback [OF h n, where aF = ?aF and cI = 2 and aB = "[0, 3, 1, 2]",
               THEN conjunct1, rule_format, OF le fp])
  then show ?thesis
    using h n
    by (simp add: case_prod_beta column_failure_events_def empty_heap_def)
qed

subsection \<open>\<^verbatim>\<open>Destruct\<close>\<close>

text \<open>
  C9. Under the invariant \<open>owned\<close>, \<^verbatim>\<open>Destruct\<close> frees the residual array when
  it is non-null, then, when the column array is non-null, every one of the
  \<open>m_cFeatures\<close> per-feature arrays in order and then the outer array, each
  exactly once and nothing else; it does nothing undefined. On an object whose
  two pointers are null it frees nothing: it only logs its entry and its exit.
\<close>

theorem Destruct_frees_owned:
  assumes own: "owned this ps s"
  shows "Destruct this s =
           s\<lparr>blocks := (\<lambda>a. if a \<in> set (owned_blocks this ps) then None else blocks s a),
             trace := trace s @
               EvLog TraceLevelInfo ''Entered DataSetByFeature::Destruct'' #
               map EvFree (owned_blocks this ps) @
               [EvLog TraceLevelInfo ''Exited DataSetByFeature::Destruct'']\<rparr>
       \<and> (m_aResidualErrors this = None \<and> m_aaInputData this = None \<longrightarrow>
            Destruct this s =
              s\<lparr>trace := trace s @
                 [EvLog TraceLevelInfo ''Entered DataSetByFeature::Destruct'',
                  EvLog TraceLevelInfo ''Exited DataSetByFeature::Destruct'']\<rparr>)"
proof -
  let ?entered = "EvLog TraceLevelInfo ''Entered DataSetByFeature::Destruct''"
  let ?exited = "EvLog TraceLevelInfo ''Exited DataSetByFeature::Destruct''"
  let ?s0 = "LOG_0 TraceLevelInfo ''Entered DataSetByFeature::Destruct'' s"
  let ?rs = "case m_aResidualErrors this of None \<Rightarrow> [] | Some r \<Rightarrow> [r]"
  let ?B1 = "\<lambda>a. if Some a = m_aResidualErrors this then None else blocks s a"
  define s1 where "s1 = free (m_aResidualErrors this) ?s0"
  have own0: "owned this ps ?s0"
    using own by simp
  have "s1 = ?s0\<lparr>blocks := (\<lambda>a. if Some a = m_aResidualErrors this then None else blocks ?s0 a),
                    trace := trace ?s0 @ map EvFree ?rs\<rparr>"
    unfolding s1_def by (rule free_residual [OF own0])
  then have s1: "s1 = s\<lparr>blocks := ?B1, trace := trace s @ ?entered # map EvFree ?rs\<rparr>"
    by (simp add: LOG_0_def cong: if_cong)
  have main: "Destruct this s =
           s\<lparr>blocks := (\<lambda>a. if a \<in> set (owned_blocks this ps) then None else blocks s a),
             trace := trace s @ ?entered # map EvFree (owned_blocks this ps) @ [?exited]\<rparr>"
  proof (cases "m_aaInputData this")
    case None
    have ob: "owned_blocks this ps = ?rs"
      using None by (simp add: owned_blocks_def)
    have "Destruct this s = LOG_0 TraceLevelInfo ''Exited DataSetByFeature::Destruct'' s1"
      by (simp add: Destruct_def Let_def None s1_def)
    then show ?thesis
      unfolding ob s1 by (simp add: LOG_0_def mem_residual_list)
  next
    case (Some aa)
    then have c: "1 \<le> m_cFeatures this" "length ps = unat (m_cFeatures this)"
      "blocks s aa = Some (PtrArray (map (\<lambda>a. Some (Some a)) ps))"
      "distinct ps" "aa \<notin> set ps" "\<forall>a \<in> set ps. blocks s a \<noteq> None"
      using own by (simp_all add: owned_def)
    have r: "Some aa \<noteq> m_aResidualErrors this" "\<forall>a \<in> set ps. Some a \<noteq> m_aResidualErrors this"
      using own Some by (auto simp: owned_def split: option.splits)
    have ob: "owned_blocks this ps = ?rs @ ps @ [aa]"
      using Some by (simp add: owned_blocks_def)
    have pos: "unat (0 :: size_t) < unat (m_cFeatures this)"
      using c(1) by (simp add: word_le_nat_alt)
    define s2 where "s2 = free_columns aa (m_cFeatures this) 0 s1"
    have "s2 = s1\<lparr>blocks := (\<lambda>a. if a \<in> set (drop (unat (0 :: size_t)) ps) then None else blocks s1 a),
                    trace := trace s1 @ map EvFree (drop (unat (0 :: size_t)) ps)\<rparr>"
      unfolding s2_def
    proof (rule free_columns_frees [OF _ c(2) pos])
      show "blocks s1 aa = Some (PtrArray (map (\<lambda>a. Some (Some a)) ps))"
        using c(3) r(1) by (simp add: s1)
      show "distinct (drop (unat (0 :: size_t)) ps)" using c(4) by simp
      show "aa \<notin> set (drop (unat (0 :: size_t)) ps)" using c(5) by simp
      show "\<forall>a \<in> set (drop (unat (0 :: size_t)) ps). blocks s1 a \<noteq> None"
        using c(6) r(2) by (simp add: s1)
    qed
    then have s2: "s2 = s\<lparr>blocks := (\<lambda>a. if a \<in> set ps then None else ?B1 a),
                          trace := trace s @ ?entered # map EvFree ?rs @ map EvFree ps\<rparr>"
      by (simp add: s1 cong: if_cong)
    have live: "blocks s2 aa \<noteq> None"
      using c(3,5) r(1) by (simp add: s2)
    define s3 where "s3 = free (Some aa) s2"
    have "s3 = s2\<lparr>blocks := (blocks s2)(aa := None), trace := trace s2 @ [EvFree aa]\<rparr>"
      unfolding s3_def using live by (rule free_live)
    moreover have "(\<lambda>a. if a \<in> set ps then None else ?B1 a)(aa := None) =
                   (\<lambda>a. if a \<in> set (?rs @ ps @ [aa]) then None else blocks s a)"
      by (rule ext) (simp add: mem_residual_list)
    ultimately have s3: "s3 = s\<lparr>blocks := (\<lambda>a. if a \<in> set (?rs @ ps @ [aa]) then None else blocks s a),
                          trace := trace s @ ?entered # map EvFree (?rs @ ps @ [aa])\<rparr>"
      by (simp add: s2)
    have "Destruct this s = LOG_0 TraceLevelInfo ''Exited DataSetByFeature::Destruct'' s3"
      by (simp add: Destruct_def Let_def Some s1_def s2_def s3_def)
    then show ?thesis
      unfolding ob s3 by (simp add: LOG_0_def)
  qed
  moreover have "owned_blocks this ps = []"
    if "m_aResidualErrors this = None \<and> m_aaInputData this = None"
    using that by (simp add: owned_blocks_def)
  ultimately show ?thesis
    by simp
qed

theorem Destruct_frees_owned_witness:
  "owned \<lparr>m_aResidualErrors = Some 0, m_aaInputData = Some 1, m_cInstances = 3, m_cFeatures = 1\<rparr> [2]
     (snd (snd (Initialize zero_DataSetByFeature 1 [\<lparr>GetIndexFeatureData = 0, GetCountBins = 4\<rparr>] 3
          [0, 3, 1] (Some 100) (Some 101) Regression (empty_heap (\<lambda>n. True) :: 8 word heap)))) \<and>
   fst (snd (Initialize zero_DataSetByFeature 1 [\<lparr>GetIndexFeatureData = 0, GetCountBins = 4\<rparr>] 3
          [0, 3, 1] (Some 100) (Some 101) Regression (empty_heap (\<lambda>n. True) :: 8 word heap))) =
     \<lparr>m_aResidualErrors = Some 0, m_aaInputData = Some 1, m_cInstances = 3, m_cFeatures = 1\<rparr> \<and>
   blocks (Destruct \<lparr>m_aResidualErrors = Some 0, m_aaInputData = Some 1, m_cInstances = 3, m_cFeatures = 1\<rparr>
     (snd (snd (Initialize zero_DataSetByFeature 1 [\<lparr>GetIndexFeatureData = 0, GetCountBins = 4\<rparr>] 3
          [0, 3, 1] (Some 100) (Some 101) Regression (empty_heap (\<lambda>n. True) :: 8 word heap))))) =
     (\<lambda>a. None) \<and>
   freed (events_since
     (snd (snd (Initialize zero_DataSetByFeature 1 [\<lparr>GetIndexFeatureData = 0, GetCountBins = 4\<rparr>] 3
          [0, 3, 1] (Some 100) (Some 101) Regression (empty_heap (\<lambda>n. True) :: 8 word heap))))
     (Destruct \<lparr>m_aResidualErrors = Some 0, m_aaInputData = Some 1, m_cInstances = 3, m_cFeatures = 1\<rparr>
     (snd (snd (Initialize zero_DataSetByFeature 1 [\<lparr>GetIndexFeatureData = 0, GetCountBins = 4\<rparr>] 3
          [0, 3, 1] (Some 100) (Some 101) Regression (empty_heap (\<lambda>n. True) :: 8 word heap)))))) =
     [0, 2, 1]"
proof -
  let ?obj = "\<lparr>m_aResidualErrors = Some 0, m_aaInputData = Some 1, m_cInstances = 3, m_cFeatures = 1\<rparr>"
  let ?run = "Initialize zero_DataSetByFeature 1 [\<lparr>GetIndexFeatureData = 0, GetCountBins = 4\<rparr>] 3
          [0, 3, 1] (Some 100) (Some 101) Regression (empty_heap (\<lambda>n. True) :: 8 word heap)"
  obtain s' where run: "?run = (False, ?obj, s')"
    and b: "blocks s' = (\<lambda>a. None)(0 \<mapsto> FloatArray 3,
                            Suc 0 \<mapsto> PtrArray [Some (Some (Suc (Suc 0)))],
                            Suc (Suc 0) \<mapsto> StorageArray [Some 0, Some 3, Some 1])"
    by (simp add: run_defs)
  have own: "owned ?obj [2] s'"
    by (simp add: owned_def b)
  show ?thesis
    using Destruct_frees_owned [OF own] own run
    by (simp add: events_since_def owned_blocks_def b fun_eq_iff)
qed

subsection \<open>A failed \<^verbatim>\<open>Initialize\<close>\<close>

text \<open>
  C2. When \<^verbatim>\<open>ConstructResidualErrors\<close> returned an array and
  \<^verbatim>\<open>ConstructInputData\<close> then fails (\<open>cFeatures \<noteq> 0\<close>), \<^verbatim>\<open>Initialize\<close> returns
  \<^verbatim>\<open>true\<close> with the object unchanged, and the residual array, live until
  then, is freed: it is the last block freed by the call. After any
  \<^verbatim>\<open>Initialize\<close> that returns \<^verbatim>\<open>true\<close> the object is what it was (so an object
  in its zero state stays in it, with its feature count unchanged) and the
  heap holds exactly the blocks it held before, so the object can be
  initialised again; \<^verbatim>\<open>Destruct\<close> on it frees nothing and does nothing
  undefined. The fields are written only when every builder that was called
  returned an array.
\<close>

theorem Initialize_failure_rolls_back:
  assumes ok: "heap_ok s"
  shows "(\<forall>r s1. cI \<noteq> 0 \<and> cF \<noteq> 0 \<and>
            ConstructResidualErrors cI aT aP lt
              (LOG_0 TraceLevelInfo ''Entered DataSetByFeature::Initialize'' s) = (Some r, s1) \<and>
            fst (ConstructInputData cF aF cI aB s1) = None \<longrightarrow>
            (case Initialize this cF aF cI aB aT aP lt s of
               (st, this', s') \<Rightarrow>
                 st = True \<and> this' = this \<and> blocks s1 r \<noteq> None \<and> blocks s' r = None \<and>
                 last (freed (events_since s s')) = r))
       \<and> (\<forall>this' s'. Initialize this cF aF cI aB aT aP lt s = (True, this', s') \<longrightarrow>
            this' = this \<and> blocks s' = blocks s \<and> heap_ok s' \<and> avail s' = avail s \<and>
            (m_aResidualErrors this = None \<and> m_aaInputData this = None \<longrightarrow>
               blocks (Destruct this' s') = blocks s' \<and>
               freed (events_since s' (Destruct this' s')) = [] \<and>
               ub (Destruct this' s') = ub s'))
       \<and> (\<forall>this' s'. Initialize this cF aF cI aB aT aP lt s = (False, this', s') \<and> cI \<noteq> 0 \<longrightarrow>
            fst (ConstructResidualErrors cI aT aP lt
                   (LOG_0 TraceLevelInfo ''Entered DataSetByFeature::Initialize'' s)) \<noteq> None \<and>
            (cF \<noteq> 0 \<longrightarrow>
               fst (ConstructInputData cF aF cI aB
                      (snd (ConstructResidualErrors cI aT aP lt
                              (LOG_0 TraceLevelInfo ''Entered DataSetByFeature::Initialize'' s)))) \<noteq> None))"
proof -
  let ?s0 = "LOG_0 TraceLevelInfo ''Entered DataSetByFeature::Initialize'' s"
  let ?res = "ConstructResidualErrors cI aT aP lt ?s0"
  let ?col = "ConstructInputData cF aF cI aB (snd ?res)"
  have ok0: "heap_ok ?s0"
    using ok by (simp add: heap_ok_def)
  note rh = ConstructResidualErrors_heap [OF ok0 surjective_pairing, of cI aT aP lt]
  have ok1: "heap_ok (snd ?res)" and av1: "avail (snd ?res) = avail s"
    using rh by simp_all
  have b1: "blocks (snd ?res) =
              (case fst ?res of None \<Rightarrow> blocks s
               | Some a \<Rightarrow> (blocks s)(a \<mapsto> FloatArray (unat cI * unat (GetVectorLength lt))))"
    using rh by (simp cong: option.case_cong)
  have r_fresh: "blocks s r = None" if "fst ?res = Some r" for r
    using rh ok that by (auto simp: heap_ok_def)
  obtain evs1 where evs1: "trace (snd ?res) = trace s @ evs1"
    using ConstructResidualErrors_trace [OF surjective_pairing, of cI aT aP lt ?s0] by auto
  have col_fail: "blocks (snd ?col) = blocks (snd ?res) \<and> avail (snd ?col) = avail s \<and>
                  heap_ok (snd ?col) \<and>
                  (\<exists>k. trace (snd ?col) = trace (snd ?res) @ column_failure_events cF cI (brk (snd ?res)) k)"
    if "cF \<noteq> 0" "fst ?col = None"
  proof -
    have cF: "0 < unat cF"
      using that(1) by (simp add: unat_gt_0)
    have run: "?col = (None, snd ?col)"
      using that(2) by (metis surjective_pairing)
    obtain k where k: "blocks (snd ?col) = blocks (snd ?res)"
      "trace (snd ?col) = trace (snd ?res) @ column_failure_events cF cI (brk (snd ?res)) k"
      "brk (snd ?col) = brk (snd ?res) + k" "avail (snd ?col) = avail (snd ?res)"
      using ConstructInputData_None [OF ok1 cF run] by metis
    have "heap_ok (snd ?col)"
      using ok1 k(1,3) by (simp add: heap_ok_def)
    then show ?thesis
      using k av1 by auto
  qed
  have exit1: "Initialize this cF aF cI aB aT aP lt s =
                 (True, this, LOG_0 TraceLevelWarning ''WARNING Exited DataSetByFeature::Initialize'' (snd ?res))"
    if "cI \<noteq> 0" "fst ?res = None"
    using that by (simp add: Initialize_unfold Let_def)
  have exit2: "Initialize this cF aF cI aB aT aP lt s =
                 (True, this,
                  LOG_0 TraceLevelWarning ''WARNING Exited DataSetByFeature::Initialize''
                    (free (fst ?res) (snd ?col)))"
    if "cI \<noteq> 0" "fst ?res \<noteq> None" "cF \<noteq> 0" "fst ?col = None"
    using that by (auto simp: Initialize_unfold Let_def)
  have after2: "blocks (free (fst ?res) (snd ?col)) = blocks s \<and>
                heap_ok (free (fst ?res) (snd ?col)) \<and>
                avail (free (fst ?res) (snd ?col)) = avail s \<and>
                (\<exists>evs. trace (free (fst ?res) (snd ?col)) = trace s @ evs @ [EvFree r] \<and>
                       freed (evs @ [EvFree r]) \<noteq> [] \<and> last (freed (evs @ [EvFree r])) = r)"
    if r: "fst ?res = Some r" and c: "cF \<noteq> 0" "fst ?col = None" for r
  proof -
    note cf = col_fail [OF c]
    have live: "blocks (snd ?col) r \<noteq> None"
      using cf b1 r by simp
    have fr: "free (fst ?res) (snd ?col) =
                (snd ?col)\<lparr>blocks := (blocks (snd ?col))(r := None),
                           trace := trace (snd ?col) @ [EvFree r]\<rparr>"
      unfolding r using live by (rule free_live)
    have "blocks (snd ?col) = (blocks s)(r \<mapsto> FloatArray (unat cI * unat (GetVectorLength lt)))"
      using cf b1 r by simp
    then have "(blocks (snd ?col))(r := None) = blocks s"
      using r_fresh [OF r] by (simp add: fun_eq_iff)
    moreover have "heap_ok (snd ?col)"
      using cf by simp
    then have "heap_ok ((snd ?col)\<lparr>blocks := (blocks (snd ?col))(r := None),
                           trace := trace (snd ?col) @ [EvFree r]\<rparr>)"
      by (simp add: heap_ok_def)
    moreover obtain k where "trace (snd ?col) = trace s @ evs1 @ column_failure_events cF cI (brk (snd ?res)) k"
      using cf evs1 by auto
    ultimately show ?thesis
      unfolding fr using cf by auto
  qed
  have part1: "case Initialize this cF aF cI aB aT aP lt s of
               (st, this', s') \<Rightarrow>
                 st = True \<and> this' = this \<and> blocks s1 r \<noteq> None \<and> blocks s' r = None \<and>
                 last (freed (events_since s s')) = r"
    if h: "cI \<noteq> 0 \<and> cF \<noteq> 0 \<and> ?res = (Some r, s1) \<and> fst (ConstructInputData cF aF cI aB s1) = None"
    for r s1
  proof -
    have res: "fst ?res = Some r" "snd ?res = s1"
      using h by simp_all
    have c: "cF \<noteq> 0" "fst ?col = None"
      using h res by simp_all
    have live1: "blocks s1 r \<noteq> None"
      using b1 res by simp
    obtain evs where evs: "blocks (free (fst ?res) (snd ?col)) = blocks s"
      "trace (free (fst ?res) (snd ?col)) = trace s @ evs @ [EvFree r]"
      using after2 [OF res(1) c] by blast
    have ex: "Initialize this cF aF cI aB aT aP lt s =
                 (True, this,
                  LOG_0 TraceLevelWarning ''WARNING Exited DataSetByFeature::Initialize''
                    (free (fst ?res) (snd ?col)))"
      using exit2 h res c by simp
    have "events_since s (LOG_0 TraceLevelWarning ''WARNING Exited DataSetByFeature::Initialize''
                    (free (fst ?res) (snd ?col))) =
            evs @ [EvFree r, EvLog TraceLevelWarning ''WARNING Exited DataSetByFeature::Initialize'']"
      using evs(2) by (simp add: events_since_def)
    then show ?thesis
      unfolding ex using evs(1) live1 r_fresh [OF res(1)] by simp
  qed
  have part2: "this' = this \<and> blocks s' = blocks s \<and> heap_ok s' \<and> avail s' = avail s \<and>
            (m_aResidualErrors this = None \<and> m_aaInputData this = None \<longrightarrow>
               blocks (Destruct this' s') = blocks s' \<and>
               freed (events_since s' (Destruct this' s')) = [] \<and>
               ub (Destruct this' s') = ub s')"
    if run: "Initialize this cF aF cI aB aT aP lt s = (True, this', s')" for this' s'
  proof -
    have cI: "cI \<noteq> 0"
      using run by (auto simp: Initialize_unfold Let_def split: if_splits)
    have core: "this' = this \<and> blocks s' = blocks s \<and> heap_ok s' \<and> avail s' = avail s"
    proof (cases "fst ?res")
      case None
      then show ?thesis
        using run exit1 [OF cI None] b1 ok1 av1 by (auto simp: heap_ok_def)
    next
      case (Some r)
      then have c: "cF \<noteq> 0" "fst ?col = None"
        using run cI by (auto simp: Initialize_unfold Let_def split: if_splits)
      show ?thesis
        using run exit2 [OF cI _ c] after2 [OF Some c] Some by (auto simp: heap_ok_def)
    qed
    moreover have "blocks (Destruct this' s') = blocks s' \<and>
               freed (events_since s' (Destruct this' s')) = [] \<and>
               ub (Destruct this' s') = ub s'"
      if "m_aResidualErrors this = None \<and> m_aaInputData this = None"
      using that core by (simp add: Destruct_def Let_def events_since_def)
    ultimately show ?thesis
      by blast
  qed
  have part3: "fst ?res \<noteq> None \<and> (cF \<noteq> 0 \<longrightarrow> fst ?col \<noteq> None)"
    if "Initialize this cF aF cI aB aT aP lt s = (False, this', s') \<and> cI \<noteq> 0" for this' s'
    using that by (auto simp: Initialize_unfold Let_def split: if_splits)
  show ?thesis
    using part1 part2 part3 by blast
qed

theorem Initialize_failure_rolls_back_witness:
  "heap_ok (empty_heap (\<lambda>n. n \<noteq> 2) :: 8 word heap) \<and>
   fst (Initialize zero_DataSetByFeature 1 [\<lparr>GetIndexFeatureData = 0, GetCountBins = 4\<rparr>] 3
          [0, 3, 1] (Some 100) (Some 101) Regression
          (empty_heap (\<lambda>n. n \<noteq> 2) :: 8 word heap)) = True \<and>
   fst (snd (Initialize zero_DataSetByFeature 1 [\<lparr>GetIndexFeatureData = 0, GetCountBins = 4\<rparr>] 3
          [0, 3, 1] (Some 100) (Some 101) Regression
          (empty_heap (\<lambda>n. n \<noteq> 2) :: 8 word heap))) = zero_DataSetByFeature \<and>
   blocks (snd (snd (Initialize zero_DataSetByFeature 1 [\<lparr>GetIndexFeatureData = 0, GetCountBins = 4\<rparr>] 3
          [0, 3, 1] (Some 100) (Some 101) Regression
          (empty_heap (\<lambda>n. n \<noteq> 2) :: 8 word heap)))) = (\<lambda>a. None)"
proof -
  let ?s = "empty_heap (\<lambda>n. n \<noteq> 2) :: 8 word heap"
  let ?run = "Initialize zero_DataSetByFeature 1 [\<lparr>GetIndexFeatureData = 0, GetCountBins = 4\<rparr>] 3
          [0, 3, 1] (Some 100) (Some 101) Regression ?s"
  have h: "heap_ok ?s" by simp
  obtain this' s' where run: "?run = (True, this', s')"
    by (simp add: run_defs free_all.simps)
  have "this' = zero_DataSetByFeature \<and> blocks s' = blocks ?s"
    using Initialize_failure_rolls_back [OF h, THEN conjunct2, THEN conjunct1, rule_format, OF run]
    by simp
  then show ?thesis
    using h run by (simp add: empty_heap_def)
qed

subsection \<open>The columns hold the narrowed codes\<close>

text \<open>
  C4. Let \<^verbatim>\<open>ConstructInputData\<close> return an array, for \<open>cFeatures \<ge> 1\<close> and
  \<open>cInstances \<ge> 1\<close>, on inputs that meet its contract: \<^verbatim>\<open>aFeatures\<close> has
  \<open>cFeatures\<close> entries and \<^verbatim>\<open>aBinnedData\<close>, a buffer that fits the address
  space, holds for each feature its run of \<open>cInstances\<close> codes at offset
  \<open>dataIndex * cInstances\<close>. Then slot \<open>i\<close> of the returned array points to a
  block of \<open>cInstances\<close> cells, and cell \<open>j\<close> of it holds the code read at
  \<open>aBinnedData[dataIndex\<^sub>i * cInstances + j]\<close>, cast to the storage type; the
  build did nothing undefined. A legal code survives the cast: a code that
  meets the assertions of the copy loop (it is non-negative, below the bin
  count of its feature and convertible to \<^verbatim>\<open>StorageDataType\<close>), cast to the
  storage type and widened back, is the code itself. When the bin count of the
  feature is itself within the range of the storage type, this holds for every
  code \<open>c\<close> with \<open>0 \<le> c < binCount\<close>.
\<close>

theorem columns_hold_narrowed_codes:
  fixes s :: "'w::len word heap"
  assumes ok: "heap_ok s" and cF: "cF \<noteq> 0" and cI: "cI \<noteq> 0"
    and feats: "unat cF \<le> length aF"
    and runs: "\<forall>i < unat cF. unat (GetIndexFeatureData (aF ! i)) * unat cI + unat cI \<le> length aB"
    and buf: "length aB < 2 ^ 64"
    and run: "ConstructInputData cF aF cI aB s = (Some aa, s')"
  shows "blocks s' aa = Some (PtrArray (map (\<lambda>i. Some (Some (Suc aa + i))) [0..<unat cF]))
       \<and> (\<forall>i < unat cF.
            blocks s' (Suc aa + i) =
              Some (StorageArray
                (map (\<lambda>j. Some (ucast (aB ! (unat (GetIndexFeatureData (aF ! i)) * unat cI + j))))
                   [0..<unat cI])))
       \<and> ub s' = ub s
       \<and> (\<forall>i < unat cF. \<forall>c.
            asserted_legal TYPE('w) (aF ! i) c \<longrightarrow> ucast (ucast c :: 'w word) = c)
       \<and> (\<forall>i < unat cF. \<forall>c :: IntEbmType.
            unat (GetCountBins (aF ! i)) \<le> 2 ^ LENGTH('w) \<and>
            0 \<le> sint c \<and> unat c < unat (GetCountBins (aF ! i)) \<longrightarrow>
            ucast (ucast c :: 'w word) = c)"
proof -
  have cF0: "0 < unat cF" and cI0: "0 < unat cI"
    using cF cI by (simp_all add: unat_gt_0)
  have mult: "unat (GetIndexFeatureData (aF ! i) * cI) = unat (GetIndexFeatureData (aF ! i)) * unat cI"
    if "i < unat cF" for i
  proof -
    have "unat (GetIndexFeatureData (aF ! i)) * unat cI + unat cI \<le> length aB"
      using runs that by simp
    then have "unat (GetIndexFeatureData (aF ! i)) * unat cI < 2 ^ 64"
      using buf by linarith
    then have "\<not> IsMultiplyError (GetIndexFeatureData (aF ! i)) cI"
      by (simp add: IsMultiplyError_iff_unat)
    then show ?thesis
      by (rule unat_mult_no_overflow)
  qed
  have inb: "\<forall>k < unat cF. unat (GetIndexFeatureData (aF ! k) * cI) + unat cI \<le> length aB"
    using runs mult by simp
  have "fst (ConstructInputData cF aF cI aB s) \<noteq> None"
    using run by simp
  then have all: "\<forall>j \<le> unat cF. avail s (calls s + j)"
    using ConstructInputData_None_iff [OF ok cF0, where aF = aF and cI = cI and aB = aB]
    by auto
  then have av: "avail s (calls s)"
    by (metis add.right_neutral le0)
  note c = ConstructInputData_complete [OF ok cF0 all run]
  have aa: "aa = brk s"
    using c by simp
  let ?sl = "replicate (unat cF) (None :: ptr option)"
  let ?s1 = "s\<lparr>blocks := (blocks s)(brk s \<mapsto> PtrArray ?sl),
                brk := Suc (brk s), calls := Suc (calls s),
                trace := trace s @ [EvLog TraceLevelInfo ''Entered DataSetByFeature::ConstructInputData'',
                                    EvAlloc (brk s) (unat cF)]\<rparr>"
  obtain r i' s2 where fill: "fill_features aF cF cI aB (brk s) 0 ?s1 = (r, i', s2)"
    by (cases "fill_features aF cF cI aB (brk s) 0 ?s1")
  have r: "r"
    using run fill by (cases r) (simp_all add: ConstructInputData_unfold [OF av])
  have fill: "fill_features aF cF cI aB (brk s) 0 ?s1 = (True, i', s2)"
    using fill r by simp
  have s': "s' = LOG_0 TraceLevelInfo ''Exited DataSetByFeature::ConstructInputData'' s2"
    using run fill by (simp add: ConstructInputData_unfold [OF av])
  have ok1: "heap_ok ?s1"
    using ok by (simp add: heap_ok_def)
  have content: "(\<forall>k. unat (0 :: size_t) \<le> k \<and> k < unat cF \<longrightarrow>
            blocks s2 (brk ?s1 + (k - unat (0 :: size_t))) = Some (StorageArray (narrowed_column aF cI aB k)))
         \<and> ub s2 = ub ?s1"
  proof (rule fill_features_content [OF ok1 _ _ _ _ feats cI0 inb fill, where sl = ?sl])
    show "blocks ?s1 (brk s) = Some (PtrArray ?sl)" by simp
    show "length ?sl = unat cF" by simp
    show "brk s < brk ?s1" by simp
    show "unat (0 :: size_t) < unat cF" using cF0 by simp
  qed
  have cols: "blocks s' (Suc aa + i) =
              Some (StorageArray
                (map (\<lambda>j. Some (ucast (aB ! (unat (GetIndexFeatureData (aF ! i)) * unat cI + j))))
                   [0..<unat cI]))"
    if "i < unat cF" for i
    using content that mult [OF that] by (simp add: s' aa narrowed_column_def)
  have ub: "ub s' = ub s"
    using content by (simp add: s')
  have slots: "blocks s' aa = Some (PtrArray (map (\<lambda>i. Some (Some (Suc aa + i))) [0..<unat cF]))"
    using c by (simp add: aa)
  have rt1: "ucast (ucast c :: 'w word) = c" if "asserted_legal TYPE('w) (aF ! i) c" for i c
    using that by (rule asserted_legal_roundtrip)
  have rt2: "ucast (ucast c :: 'w word) = c"
    if "unat (GetCountBins (aF ! i)) \<le> 2 ^ LENGTH('w) \<and>
        0 \<le> sint c \<and> unat c < unat (GetCountBins (aF ! i))" for i and c :: IntEbmType
  proof -
    have "asserted_legal TYPE('w) (aF ! i) c"
      using that by (intro asserted_legal_of_range) simp_all
    then show ?thesis
      by (rule asserted_legal_roundtrip)
  qed
  show ?thesis
  proof (intro conjI allI impI)
    show "blocks s' aa = Some (PtrArray (map (\<lambda>i. Some (Some (Suc aa + i))) [0..<unat cF]))"
      by (rule slots)
    show "ub s' = ub s"
      by (rule ub)
  next
    fix i assume "i < unat cF"
    then show "blocks s' (Suc aa + i) =
              Some (StorageArray
                (map (\<lambda>j. Some (ucast (aB ! (unat (GetIndexFeatureData (aF ! i)) * unat cI + j))))
                   [0..<unat cI]))"
      by (rule cols)
  next
    fix i and c :: IntEbmType
    assume "asserted_legal TYPE('w) (aF ! i) c"
    then show "ucast (ucast c :: 'w word) = c"
      by (rule rt1)
  next
    fix i and c :: IntEbmType
    assume "unat (GetCountBins (aF ! i)) \<le> 2 ^ LENGTH('w) \<and>
            0 \<le> sint c \<and> unat c < unat (GetCountBins (aF ! i))"
    then show "ucast (ucast c :: 'w word) = c"
      by (rule rt2)
  qed
qed

theorem columns_hold_narrowed_codes_witness:
  "heap_ok (empty_heap (\<lambda>n. True) :: 8 word heap) \<and>
   fst (ConstructInputData 1 [\<lparr>GetIndexFeatureData = 0, GetCountBins = 4\<rparr>] 3 [0, 3, 1]
          (empty_heap (\<lambda>n. True) :: 8 word heap)) = Some 0 \<and>
   blocks (snd (ConstructInputData 1 [\<lparr>GetIndexFeatureData = 0, GetCountBins = 4\<rparr>] 3 [0, 3, 1]
          (empty_heap (\<lambda>n. True) :: 8 word heap))) 0 = Some (PtrArray [Some (Some 1)]) \<and>
   blocks (snd (ConstructInputData 1 [\<lparr>GetIndexFeatureData = 0, GetCountBins = 4\<rparr>] 3 [0, 3, 1]
          (empty_heap (\<lambda>n. True) :: 8 word heap))) 1 =
     Some (StorageArray [Some 0, Some 3, Some 1]) \<and>
   asserted_legal TYPE(8) \<lparr>GetIndexFeatureData = 0, GetCountBins = 4\<rparr> 3 \<and>
   ucast (ucast (3 :: IntEbmType) :: 8 word) = (3 :: IntEbmType)"
proof -
  let ?s = "empty_heap (\<lambda>n. True) :: 8 word heap"
  let ?aF = "[\<lparr>GetIndexFeatureData = 0, GetCountBins = 4\<rparr>]"
  let ?aB = "[0, 3, 1] :: IntEbmType list"
  have h: "heap_ok ?s" by simp
  have cF: "(1 :: size_t) \<noteq> 0" and cI: "(3 :: size_t) \<noteq> 0" by simp_all
  have feats: "unat (1 :: size_t) \<le> length ?aF" by simp
  have runs: "\<forall>i < unat (1 :: size_t).
                unat (GetIndexFeatureData (?aF ! i)) * unat (3 :: size_t) + unat (3 :: size_t) \<le> length ?aB"
    by simp
  have buf: "length ?aB < 2 ^ 64" by simp
  obtain s' where run: "ConstructInputData 1 ?aF 3 ?aB ?s = (Some 0, s')"
    by (simp add: run_defs)
  have legal: "asserted_legal TYPE(8) \<lparr>GetIndexFeatureData = 0, GetCountBins = 4\<rparr> 3"
    by (simp add: asserted_legal_def IsNumberConvertable_def)
  have upt3: "[0..<3] = [0, 1, 2 :: nat]"
    by code_simp
  note T = columns_hold_narrowed_codes [OF h cF cI feats runs buf run]
  have "blocks s' 0 = Some (PtrArray [Some (Some 1)])"
    using T by simp
  moreover have "blocks s' 1 = Some (StorageArray [Some 0, Some 3, Some 1])"
    using T [THEN conjunct2, THEN conjunct1, rule_format, of 0] upt3
    by simp
  moreover have "ucast (ucast (3 :: IntEbmType) :: 8 word) = (3 :: IntEbmType)"
    using T [THEN conjunct2, THEN conjunct2, THEN conjunct2, THEN conjunct1, rule_format, of 0 3] legal
    by simp
  ultimately show ?thesis
    using h run legal by simp
qed

end
